theory Spec2Isabelle
  imports Main "HOL-Library.Word"
begin

unbundle bit_operations_syntax

section \<open>Data model of virtual\_stepper.c\<close>

text \<open>
  Move descriptors live in the slots of the move pool.  A slot is named by its address;
  a C pointer to a descriptor is an \<open>addr option\<close>, \<open>None\<close> being \<open>NULL\<close>.
\<close>

type_synonym addr = nat

text \<open>\<open>struct virtual_stepper_move\<close>.  \<open>int16_t add\<close> is kept as its 16-bit pattern and
  sign-extended (\<open>scast\<close>) where the C promotes it.\<close>

record virtual_stepper_move =
  m_interval :: "32 word"
  m_add :: "16 word"
  m_count :: "16 word"
  m_next :: "addr option"
  m_flags :: "8 word"

definition MF_DIR :: "8 word" where
  "MF_DIR = push_bit 0 1"

text \<open>
  \<open>struct virtual_stepper\<close>.  The embedded \<open>struct timer time\<close> contributes
  \<open>time_waketime\<close>; \<open>time_armed\<close> is the scheduler's side of that timer (see
  \<open>sched_add_timer\<close> below).  \<open>plast\<close> has C type \<open>struct virtual_stepper_move **\<close> and
  only ever holds \<open>NULL\<close> or \<open>&m->next\<close> for a descriptor \<open>m\<close>; it is modelled as the
  address of that descriptor.
\<close>

record virtual_stepper =
  time_waketime :: "32 word"
  time_armed :: "32 word option"
  s_interval :: "32 word"
  s_add :: "16 word"
  s_count :: "16 word"
  s_position :: "32 word"
  s_first :: "addr option"
  s_plast :: "addr option"
  s_flags :: "8 word"

definition SF_CURRENT_DIR :: "8 word" where
  "SF_CURRENT_DIR = push_bit 0 1"

definition SF_NEXT_DIR :: "8 word" where
  "SF_NEXT_DIR = push_bit 1 1"

text \<open>
  Modelled from the spec: the two return codes of a timer callback (\<open>sched.h\<close> is not
  part of this file), "keep armed with new wake time" and "disarmed".
\<close>

datatype sched_flag = SF_DONE | SF_RESCHEDULE

text \<open>
  What is shared by all steppers: the memory of the pool's slots, the pool's free list
  and the interrupt mask.
\<close>

record globals =
  mem :: "addr \<Rightarrow> virtual_stepper_move"
  free_list :: "addr list"
  irq_off :: bool

text \<open>
  How a call can end other than by returning.  \<open>Shutdown msg\<close> is the firmware's
  \<open>shutdown(msg)\<close>; \<open>Pool_exhausted\<close> is the allocator's own fault; \<open>Null_deref\<close> is a
  store through a \<open>NULL\<close> \<open>plast\<close>.  The last two belong to the driver of operation
  sequences further down: a timer event asked of a disarmed timer, and a stop whose
  flush loop does not end.
\<close>

datatype fault =
    Shutdown string
  | Pool_exhausted
  | Null_deref
  | Timer_not_armed
  | Stop_diverges

type_synonym state = "virtual_stepper \<times> globals"

section \<open>External collaborators\<close>

text \<open>
  Modelled from the spec: the move pool (\<open>move_alloc\<close>, \<open>move_free\<close> of basecmd.c are not
  part of this file).  The spec has a fixed-size slot allocator with an explicit free
  list, \<open>allocate\<close> and \<open>release\<close> both O(1), and an empty pool failing fast.
\<close>

definition move_alloc :: "globals \<Rightarrow> (fault \<times> globals) + (addr \<times> globals)" where
  "move_alloc g =
     (case free_list g of
        [] \<Rightarrow> Inl (Pool_exhausted, g)
      | a # fl \<Rightarrow> Inr (a, g\<lparr>free_list := fl\<rparr>))"

definition move_free :: "addr \<Rightarrow> globals \<Rightarrow> globals" where
  "move_free a g = g\<lparr>free_list := a # free_list g\<rparr>"

text \<open>
  Modelled from the spec: the interrupt mask that makes the critical section
  (\<open>board/irq.h\<close> is not part of this file).  \<open>irq_disable\<close> masks interrupts,
  \<open>irq_enable\<close> unmasks them.
\<close>

definition irq_disable :: "globals \<Rightarrow> globals" where
  "irq_disable g = g\<lparr>irq_off := True\<rparr>"

definition irq_enable :: "globals \<Rightarrow> globals" where
  "irq_enable g = g\<lparr>irq_off := False\<rparr>"

text \<open>
  Modelled from the spec: the timer primitive (sched.c is not part of this file).  It
  arms a single future wake time per stepper: \<open>time_armed s = Some t\<close> when the stepper's
  timer is armed to fire at tick \<open>t\<close>, \<open>None\<close> when it is disarmed.
\<close>

definition sched_add_timer :: "virtual_stepper \<Rightarrow> virtual_stepper" where
  "sched_add_timer s = s\<lparr>time_armed := Some (time_waketime s)\<rparr>"

definition sched_del_timer :: "virtual_stepper \<Rightarrow> virtual_stepper" where
  "sched_del_timer s = s\<lparr>time_armed := None\<rparr>"

text \<open>A store to one descriptor in pool memory.\<close>

definition mem_upd ::
  "addr \<Rightarrow> (virtual_stepper_move \<Rightarrow> virtual_stepper_move) \<Rightarrow> globals \<Rightarrow> globals" where
  "mem_upd a f g = g\<lparr>mem := (mem g)(a := f (mem g a))\<rparr>"

section \<open>The stepper state machine\<close>

text \<open>\<open>virtual_stepper_load_next\<close>: set up a stepper for the next move in its queue.\<close>

definition virtual_stepper_load_next ::
  "virtual_stepper \<Rightarrow> globals \<Rightarrow> sched_flag \<times> virtual_stepper \<times> globals" where
  "virtual_stepper_load_next s g =
     (case s_first s of
        None \<Rightarrow> (SF_DONE, s\<lparr>s_count := 0\<rparr>, g)
      | Some a \<Rightarrow>
          let m = mem g a;
              s1 = s\<lparr>time_waketime := time_waketime s + m_interval m\<rparr>;
              s2 = s1\<lparr>s_add := m_add m\<rparr>;
              s3 = s2\<lparr>s_interval := m_interval m + scast (m_add m)\<rparr>;
              s4 = s3\<lparr>s_count := m_count m\<rparr>;
              s5 = s4\<lparr>s_flags := (s_flags s4 AND NOT SF_CURRENT_DIR) OR m_flags m\<rparr>;
              s6 = s5\<lparr>s_first := m_next m\<rparr>
          in (SF_RESCHEDULE, s6, move_free a g))"

text \<open>\<open>virtual_stepper_event\<close>: the timer callback, one step of the stepper.\<close>

definition virtual_stepper_event ::
  "virtual_stepper \<Rightarrow> globals \<Rightarrow> sched_flag \<times> virtual_stepper \<times> globals" where
  "virtual_stepper_event s g =
     (let s1 = (if s_flags s AND SF_CURRENT_DIR \<noteq> 0
                then s\<lparr>s_position := s_position s + 1\<rparr>
                else s\<lparr>s_position := s_position s - 1\<rparr>);
          count = s_count s1 - 1
      in if count \<noteq> 0 then
           let s2 = s1\<lparr>s_count := count\<rparr>;
               s3 = s2\<lparr>time_waketime := time_waketime s2 + s_interval s2\<rparr>;
               s4 = s3\<lparr>s_interval := s_interval s3 + scast (s_add s3)\<rparr>
           in (SF_RESCHEDULE, s4, g)
         else virtual_stepper_load_next s1 g)"

text \<open>
  Modelled from the spec: the timer primitive invokes the callback of an armed timer
  when it is due, and the callback's return value tells it whether to keep the timer
  armed, with the updated wake time, or to leave it disarmed.
\<close>

definition timer_dispatch ::
  "virtual_stepper \<Rightarrow> globals \<Rightarrow> (fault \<times> state) + state" where
  "timer_dispatch s g =
     (case time_armed s of
        None \<Rightarrow> Inl (Timer_not_armed, s, g)
      | Some t \<Rightarrow>
          (case virtual_stepper_event s g of
             (SF_RESCHEDULE, s', g') \<Rightarrow> Inr (s'\<lparr>time_armed := Some (time_waketime s')\<rparr>, g')
           | (SF_DONE, s', g') \<Rightarrow> Inr (s'\<lparr>time_armed := None\<rparr>, g')))"

text \<open>
  Modelled from the spec: \<open>command_config_virtual_stepper\<close> allocates and initializes
  a stepper through \<open>oid_alloc\<close> (basecmd.c, not part of this file), which hands out
  zeroed memory: the freshly configured stepper has every field zero and both pointers
  \<open>NULL\<close>, and its timer is not armed.
\<close>

definition command_config_virtual_stepper :: virtual_stepper where
  "command_config_virtual_stepper =
     \<lparr>time_waketime = 0, time_armed = None, s_interval = 0, s_add = 0, s_count = 0,
      s_position = 0, s_first = None, s_plast = None, s_flags = 0\<rparr>"

text \<open>
  \<open>command_virtual_queue_step\<close>.  The stepper \<open>s\<close> is what \<open>virtual_stepper_oid_lookup(args[0])\<close>
  returned; \<open>arg1\<close>, \<open>arg2\<close>, \<open>arg3\<close> are \<open>args[1..3]\<close> (interval, count, add) as the
  \<open>uint32_t\<close> the command dispatcher passes.  The stores \<open>m->count = args[2]\<close> and
  \<open>m->add = args[3]\<close> truncate to 16 bits.
\<close>

definition command_virtual_queue_step ::
  "virtual_stepper \<Rightarrow> 32 word \<Rightarrow> 32 word \<Rightarrow> 32 word \<Rightarrow> globals \<Rightarrow> (fault \<times> state) + state" where
  "command_virtual_queue_step s arg1 arg2 arg3 g =
     (case move_alloc g of
        Inl (e, g') \<Rightarrow> Inl (e, s, g')
      | Inr (m, g1) \<Rightarrow>
          let g2 = mem_upd m (\<lambda>d. d\<lparr>m_interval := arg1\<rparr>) g1;
              g3 = mem_upd m (\<lambda>d. d\<lparr>m_count := ucast arg2\<rparr>) g2
          in if m_count (mem g3 m) = 0 then Inl (Shutdown ''Invalid count parameter'', s, g3)
             else
               let g4 = mem_upd m (\<lambda>d. d\<lparr>m_add := ucast arg3\<rparr>) g3;
                   g5 = mem_upd m (\<lambda>d. d\<lparr>m_next := None\<rparr>) g4;
                   g6 = mem_upd m (\<lambda>d. d\<lparr>m_flags := 0\<rparr>) g5;
                   g7 = irq_disable g6;
                   flags = s_flags s;
                   g8 = mem_upd m
                          (\<lambda>d. d\<lparr>m_flags := (if flags AND SF_NEXT_DIR \<noteq> 0 then MF_DIR else 0)\<rparr>) g7
               in if s_count s \<noteq> 0 then
                    (case s_first s of
                       Some f \<Rightarrow>
                         (case s_plast s of
                            None \<Rightarrow> Inl (Null_deref, s, g8)
                          | Some p \<Rightarrow>
                              Inr (s\<lparr>s_plast := Some m\<rparr>,
                                   irq_enable (mem_upd p (\<lambda>d. d\<lparr>m_next := Some m\<rparr>) g8)))
                     | None \<Rightarrow> Inr (s\<lparr>s_first := Some m, s_plast := Some m\<rparr>, irq_enable g8))
                  else
                    (case virtual_stepper_load_next (s\<lparr>s_first := Some m\<rparr>) g8 of
                       (r, s1, g9) \<Rightarrow> Inr (sched_add_timer s1, irq_enable g9)))"

text \<open>\<open>command_virtual_set_next_step_dir\<close>: \<open>arg1\<close> is \<open>args[1]\<close> (dir).\<close>

definition command_virtual_set_next_step_dir ::
  "virtual_stepper \<Rightarrow> 32 word \<Rightarrow> globals \<Rightarrow> state" where
  "command_virtual_set_next_step_dir s arg1 g =
     (let nextdir = (if arg1 \<noteq> 0 then SF_NEXT_DIR else 0);
          g1 = irq_disable g;
          s1 = s\<lparr>s_flags := (s_flags s AND NOT SF_NEXT_DIR) OR nextdir\<rparr>
      in (s1, irq_enable g1))"

text \<open>\<open>command_virtual_reset_step_clock\<close>: \<open>arg1\<close> is \<open>args[1]\<close> (clock).\<close>

definition command_virtual_reset_step_clock ::
  "virtual_stepper \<Rightarrow> 32 word \<Rightarrow> globals \<Rightarrow> (fault \<times> state) + state" where
  "command_virtual_reset_step_clock s arg1 g =
     (let waketime = arg1;
          g1 = irq_disable g
      in if s_count s \<noteq> 0 then Inl (Shutdown ''Can't reset time when stepper active'', s, g1)
         else Inr (s\<lparr>time_waketime := waketime\<rparr>, irq_enable g1))"

text \<open>\<open>virtual_stepper_get_position\<close> and \<open>virtual_stepper_set_position\<close>.\<close>

definition virtual_stepper_get_position :: "virtual_stepper \<Rightarrow> 32 word" where
  "virtual_stepper_get_position s = s_position s"

definition virtual_stepper_set_position :: "virtual_stepper \<Rightarrow> 32 word \<Rightarrow> virtual_stepper" where
  "virtual_stepper_set_position s p = s\<lparr>s_position := p\<rparr>"

text \<open>
  \<open>virtual_stepper_stop\<close>.  Its \<open>while (s->first)\<close> loop follows \<open>next\<close> pointers until it
  meets \<open>NULL\<close>; on a chain that never reaches \<open>NULL\<close> it does not return, which is the
  value \<open>None\<close> here.
\<close>

partial_function (option) virtual_stepper_stop_loop :: "state \<Rightarrow> state option" where
  "virtual_stepper_stop_loop sg =
     (case s_first (fst sg) of
        None \<Rightarrow> Some sg
      | Some a \<Rightarrow>
          (let next = m_next (mem (snd sg) a);
               g1 = move_free a (snd sg)
           in virtual_stepper_stop_loop ((fst sg)\<lparr>s_first := next\<rparr>, g1)))"

declare virtual_stepper_stop_loop.simps [code]

definition virtual_stepper_stop :: "virtual_stepper \<Rightarrow> globals \<Rightarrow> state option" where
  "virtual_stepper_stop s g =
     (let s1 = sched_del_timer s;
          s2 = s1\<lparr>time_waketime := 0\<rparr>;
          s3 = s2\<lparr>s_count := 0\<rparr>;
          s4 = s3\<lparr>s_flags := 0\<rparr>
      in virtual_stepper_stop_loop (s4, g))"

text \<open>
  \<open>virtual_stepper_shutdown\<close>.  \<open>foreach_oid\<close> visits every object that was configured as a
  virtual stepper; the list is those steppers in oid order.
\<close>

fun virtual_stepper_shutdown ::
  "virtual_stepper list \<Rightarrow> globals \<Rightarrow> (virtual_stepper list \<times> globals) option" where
  "virtual_stepper_shutdown [] g = Some ([], g)"
| "virtual_stepper_shutdown (s # ss) g =
     (case virtual_stepper_stop (s\<lparr>s_first := None\<rparr>) g of
        None \<Rightarrow> None
      | Some (s', g') \<Rightarrow>
          (case virtual_stepper_shutdown ss g' of
             None \<Rightarrow> None
           | Some (ss', g'') \<Rightarrow> Some (s' # ss', g'')))"

section \<open>Operation sequences\<close>

text \<open>
  The queue as the code reaches it: \<open>queue_path h p as\<close> holds when following \<open>next\<close>
  pointers in memory \<open>h\<close> from pointer \<open>p\<close> visits exactly the descriptors \<open>as\<close> and then
  meets \<open>NULL\<close>.
\<close>

fun queue_path :: "(addr \<Rightarrow> virtual_stepper_move) \<Rightarrow> addr option \<Rightarrow> addr list \<Rightarrow> bool" where
  "queue_path h p [] = (p = None)"
| "queue_path h p (a # as) = (p = Some a \<and> queue_path h (m_next (h a)) as)"

text \<open>
  The operations on one stepper: the three commands with their argument words, a firing
  of the stepper's timer, and \<open>virtual_stepper_stop\<close>.
\<close>

datatype op =
    Queue_step "32 word" "32 word" "32 word"
  | Set_next_step_dir "32 word"
  | Reset_step_clock "32 word"
  | Timer_event
  | Stop

fun step :: "op \<Rightarrow> state \<Rightarrow> (fault \<times> state) + state" where
  "step (Queue_step arg1 arg2 arg3) (s, g) = command_virtual_queue_step s arg1 arg2 arg3 g"
| "step (Set_next_step_dir arg1) (s, g) = Inr (command_virtual_set_next_step_dir s arg1 g)"
| "step (Reset_step_clock arg1) (s, g) = command_virtual_reset_step_clock s arg1 g"
| "step Timer_event (s, g) = timer_dispatch s g"
| "step Stop (s, g) =
     (case virtual_stepper_stop s g of
        None \<Rightarrow> Inl (Stop_diverges, s, g)
      | Some sg \<Rightarrow> Inr sg)"

text \<open>A sequence of operations runs until the first fault, which ends it.\<close>

fun run :: "op list \<Rightarrow> state \<Rightarrow> (fault \<times> state) + state" where
  "run [] sg = Inr sg"
| "run (x # xs) sg =
     (case step x sg of
        Inl e \<Rightarrow> Inl e
      | Inr sg' \<Rightarrow> run xs sg')"

text \<open>
  What an observer of the timer sees of a run: for every timer event, the tick it fired
  at and the change of \<open>position\<close> it made.
\<close>

fun step_trace :: "op list \<Rightarrow> state \<Rightarrow> (32 word \<times> 32 word) list" where
  "step_trace [] sg = []"
| "step_trace (x # xs) sg =
     (case step x sg of
        Inl e \<Rightarrow> []
      | Inr sg' \<Rightarrow>
          (case (x, time_armed (fst sg)) of
             (Timer_event, Some t) \<Rightarrow> [(t, s_position (fst sg') - s_position (fst sg))]
           | _ \<Rightarrow> []) @ step_trace xs sg')"

text \<open>An empty pool memory with four free slots, interrupts enabled.\<close>

definition blank_move :: virtual_stepper_move where
  "blank_move = \<lparr>m_interval = 0, m_add = 0, m_count = 0, m_next = None, m_flags = 0\<rparr>"

definition pool4 :: globals where
  "pool4 = \<lparr>mem = (\<lambda>a. blank_move), free_list = [0, 1, 2, 3], irq_off = False\<rparr>"

text \<open>
  What the enqueue handler has written into the descriptors it created in a run: for
  every \<open>Queue_step\<close> that returned, the \<open>count\<close> and \<open>flags\<close> fields of the descriptor
  it allocated (the head of the free list when it was called), read when the handler
  returns.
\<close>

fun enqueued :: "op list \<Rightarrow> state \<Rightarrow> (16 word \<times> 8 word) list" where
  "enqueued [] sg = []"
| "enqueued (x # xs) sg =
     (case step x sg of
        Inl e \<Rightarrow> []
      | Inr sg' \<Rightarrow>
          (case (x, free_list (snd sg)) of
             (Queue_step arg1 arg2 arg3, a # fl) \<Rightarrow>
               [(m_count (mem (snd sg') a), m_flags (mem (snd sg') a))]
           | _ \<Rightarrow> []) @ enqueued xs sg')"

text \<open>The number of timer events in a sequence of operations.\<close>

definition timer_events :: "op list \<Rightarrow> nat" where
  "timer_events xs = length (filter (\<lambda>x. x = Timer_event) xs)"

section \<open>The moves as the host sees them\<close>

text \<open>
  Following the spec's words for an enqueued move (\<open>count\<close> steps, each of one unit in
  the move's direction), with the direction bit copied from the next-direction flag
  at enqueue time: \<open>spec_moves d xs\<close> lists the moves that the operations \<open>xs\<close> enqueue,
  each with the value the next-direction flag has when it is enqueued, \<open>d\<close> being the
  flag before \<open>xs\<close>.  \<open>move_steps\<close> is the sequence of position changes of one move.
\<close>

fun spec_moves :: "bool \<Rightarrow> op list \<Rightarrow> (16 word \<times> bool) list" where
  "spec_moves d [] = []"
| "spec_moves d (Queue_step arg1 arg2 arg3 # xs) = (ucast arg2, d) # spec_moves d xs"
| "spec_moves d (Set_next_step_dir arg1 # xs) = spec_moves (arg1 \<noteq> 0) xs"
| "spec_moves d (Reset_step_clock arg1 # xs) = spec_moves d xs"
| "spec_moves d (Timer_event # xs) = spec_moves d xs"
| "spec_moves d (Stop # xs) = spec_moves d xs"

fun next_dir_after :: "bool \<Rightarrow> op \<Rightarrow> bool" where
  "next_dir_after d (Set_next_step_dir arg1) = (arg1 \<noteq> 0)"
| "next_dir_after d x = d"

definition dir_delta :: "bool \<Rightarrow> 32 word" where
  "dir_delta d = (if d then 1 else - 1)"

definition move_steps :: "16 word \<times> bool \<Rightarrow> 32 word list" where
  "move_steps m = replicate (unat (fst m)) (dir_delta (snd m))"

section \<open>Well-formed states\<close>

text \<open>The descriptor the enqueue handler builds from its arguments and the direction.\<close>

definition new_move :: "32 word \<Rightarrow> 32 word \<Rightarrow> 32 word \<Rightarrow> bool \<Rightarrow> virtual_stepper_move" where
  "new_move arg1 arg2 arg3 d =
     \<lparr>m_interval = arg1, m_add = ucast arg3, m_count = ucast arg2, m_next = None,
      m_flags = (if d then MF_DIR else 0)\<rparr>"

text \<open>
  \<open>stepper_inv as sg\<close>: the queue of the stepper is the list \<open>as\<close> of distinct descriptors,
  none of them free, each with a count that is not zero and no flag but the direction
  bit; \<open>plast\<close> points into the last of them; an idle stepper has an empty queue and a
  disarmed timer, an active one a timer armed for \<open>waketime\<close>.
\<close>

definition stepper_inv :: "addr list \<Rightarrow> state \<Rightarrow> bool" where
  "stepper_inv as sg \<longleftrightarrow>
     queue_path (mem (snd sg)) (s_first (fst sg)) as \<and>
     distinct (as @ free_list (snd sg)) \<and>
     (\<forall>a\<in>set as. m_count (mem (snd sg) a) \<noteq> 0 \<and>
        (m_flags (mem (snd sg) a) = 0 \<or> m_flags (mem (snd sg) a) = MF_DIR)) \<and>
     (as \<noteq> [] \<longrightarrow> s_plast (fst sg) = Some (last as)) \<and>
     (s_count (fst sg) = 0 \<longrightarrow> as = [] \<and> time_armed (fst sg) = None) \<and>
     (s_count (fst sg) \<noteq> 0 \<longrightarrow> time_armed (fst sg) = Some (time_waketime (fst sg)))"

text \<open>The position changes still to come: those of the active move, then the queue's.\<close>

definition pending :: "addr list \<Rightarrow> state \<Rightarrow> 32 word list" where
  "pending as sg =
     replicate (unat (s_count (fst sg))) (dir_delta (bit (s_flags (fst sg)) 0)) @
     concat (map (\<lambda>a. replicate (unat (m_count (mem (snd sg) a)))
                         (dir_delta (bit (m_flags (mem (snd sg) a)) 0))) as)"

text \<open>
  A stepper with an active move and two queued ones, as four commands leave it (see
  \<open>busy_reached\<close> below).
\<close>

definition busy_stepper :: virtual_stepper where
  "busy_stepper =
     \<lparr>time_waketime = 1000, time_armed = Some 1000, s_interval = 1000, s_add = 0, s_count = 1,
      s_position = 0, s_first = Some 0, s_plast = Some 1, s_flags = 2\<rparr>"

definition busy_pool :: globals where
  "busy_pool =
     \<lparr>mem = (\<lambda>a. blank_move)
        (1 := \<lparr>m_interval = 500, m_add = 0, m_count = 2, m_next = None, m_flags = 1\<rparr>,
         0 := \<lparr>m_interval = 2000, m_add = 100, m_count = 3, m_next = Some 1, m_flags = 1\<rparr>),
      free_list = [2, 3], irq_off = False\<rparr>"

section \<open>Flag bits\<close>

lemma bit_SF_CURRENT_DIR: "bit SF_CURRENT_DIR n \<longleftrightarrow> n = 0"
  by (simp add: SF_CURRENT_DIR_def bit_1_iff)

lemma bit_MF_DIR: "bit MF_DIR n \<longleftrightarrow> n = 0"
  by (simp add: MF_DIR_def bit_1_iff)

lemma bit_SF_NEXT_DIR: "bit SF_NEXT_DIR n \<longleftrightarrow> n = 1"
  unfolding SF_NEXT_DIR_def bit_push_bit_iff bit_1_iff by (auto simp: possible_bit_word)

lemma test_current_dir: "(f AND SF_CURRENT_DIR \<noteq> 0) = bit f 0"
  by (auto simp add: bit_eq_iff [where ?'a = "8 word"] bit_and_iff bit_SF_CURRENT_DIR)

lemma test_next_dir: "(f AND SF_NEXT_DIR \<noteq> 0) = bit f 1"
  by (auto simp add: bit_eq_iff [where ?'a = "8 word"] bit_and_iff bit_SF_NEXT_DIR)

lemma bit_load_flags:
  "bit ((f AND NOT SF_CURRENT_DIR) OR m) n \<longleftrightarrow> (bit f n \<and> n \<noteq> 0) \<or> bit m n"
  by (auto simp add: bit_or_iff bit_and_iff bit_not_iff bit_SF_CURRENT_DIR
      dest: bit_imp_le_length)

lemma bit_set_dir_flags:
  "bit ((f AND NOT SF_NEXT_DIR) OR (if d then SF_NEXT_DIR else 0)) n \<longleftrightarrow>
     (if n = 1 then d else bit f n)"
  by (auto simp add: bit_or_iff bit_and_iff bit_not_iff bit_SF_NEXT_DIR
      dest: bit_imp_le_length)

lemma dir_flag_test: "((if d then MF_DIR else 0) AND MF_DIR \<noteq> 0) = d"
  by (simp add: MF_DIR_def)

lemma SF_NEXT_DIR_nonzero: "SF_NEXT_DIR \<noteq> 0"
  by (simp add: SF_NEXT_DIR_def)

lemmas flag_simps = test_next_dir test_current_dir bit_or_iff bit_and_iff bit_not_iff
  bit_SF_NEXT_DIR bit_SF_CURRENT_DIR bit_MF_DIR SF_NEXT_DIR_nonzero

text \<open>The definitions a concrete run unfolds.\<close>

lemmas eval_defs = command_virtual_queue_step_def move_alloc_def mem_upd_def irq_disable_def irq_enable_def
  virtual_stepper_load_next_def move_free_def sched_add_timer_def sched_del_timer_def
  command_virtual_set_next_step_dir_def command_virtual_reset_step_clock_def
  timer_dispatch_def virtual_stepper_event_def command_config_virtual_stepper_def pool4_def blank_move_def
  SF_CURRENT_DIR_def SF_NEXT_DIR_def MF_DIR_def Let_def

section \<open>The queue in memory\<close>

lemma queue_path_next_cong:
  "(\<And>b. m_next (h' b) = m_next (h b)) \<Longrightarrow> queue_path h' p as = queue_path h p as"
  by (induction as arbitrary: p) simp_all

lemma queue_path_cong:
  "(\<And>b. b \<in> set as \<Longrightarrow> m_next (h' b) = m_next (h b)) \<Longrightarrow> queue_path h' p as = queue_path h p as"
  by (induction as arbitrary: p) auto

lemma queue_path_append:
  "queue_path h p as \<Longrightarrow> as \<noteq> [] \<Longrightarrow> a \<notin> set as \<Longrightarrow> distinct as \<Longrightarrow>
   queue_path (h(a := m, last as := (h (last as))\<lparr>m_next := Some a\<rparr>)) p (as @ [a]) =
     (m_next m = None)"
proof (induction as arbitrary: p)
  case Nil
  then show ?case by simp
next
  case (Cons b bs)
  show ?case
  proof (cases bs)
    case Nil
    with Cons.prems show ?thesis by auto
  next
    case (Cons c cs)
    with Cons.prems Cons.IH [of "m_next (h b)"] show ?thesis by auto
  qed
qed

section \<open>What each operation returns\<close>

lemma move_all_fields:
  "r\<lparr>m_interval := i, m_add := a, m_count := c, m_next := n, m_flags := f\<rparr> =
     \<lparr>m_interval = i, m_add = a, m_count = c, m_next = n, m_flags = f\<rparr>"
  by (cases r) simp

lemma load_next_Some:
  "s_first s = Some a \<Longrightarrow>
   virtual_stepper_load_next s g =
     (SF_RESCHEDULE,
      s\<lparr>time_waketime := time_waketime s + m_interval (mem g a),
        s_add := m_add (mem g a),
        s_interval := m_interval (mem g a) + scast (m_add (mem g a)),
        s_count := m_count (mem g a),
        s_flags := (s_flags s AND NOT SF_CURRENT_DIR) OR m_flags (mem g a),
        s_first := m_next (mem g a)\<rparr>,
      g\<lparr>free_list := a # free_list g\<rparr>)"
  by (simp add: virtual_stepper_load_next_def Let_def move_free_def)

lemma load_next_None:
  "s_first s = None \<Longrightarrow> virtual_stepper_load_next s g = (SF_DONE, s\<lparr>s_count := 0\<rparr>, g)"
  by (simp add: virtual_stepper_load_next_def)

lemma queue_step_pool_empty:
  "free_list g = [] \<Longrightarrow> command_virtual_queue_step s arg1 arg2 arg3 g = Inl (Pool_exhausted, s, g)"
  by (simp add: command_virtual_queue_step_def move_alloc_def)

lemma queue_step_zero:
  "free_list g = a # fl \<Longrightarrow> ucast arg2 = (0::16 word) \<Longrightarrow>
   command_virtual_queue_step s arg1 arg2 arg3 g =
     Inl (Shutdown ''Invalid count parameter'', s,
          g\<lparr>mem := (mem g)(a := (mem g a)\<lparr>m_interval := arg1, m_count := 0\<rparr>), free_list := fl\<rparr>)"
  by (simp add: command_virtual_queue_step_def move_alloc_def mem_upd_def Let_def)

lemma queue_step_idle:
  "free_list g = a # fl \<Longrightarrow> ucast arg2 \<noteq> (0::16 word) \<Longrightarrow> s_count s = 0 \<Longrightarrow>
   command_virtual_queue_step s arg1 arg2 arg3 g =
     Inr (s\<lparr>time_waketime := time_waketime s + arg1,
            time_armed := Some (time_waketime s + arg1),
            s_add := ucast arg3,
            s_interval := arg1 + scast (ucast arg3 :: 16 word),
            s_count := ucast arg2,
            s_flags := (s_flags s AND NOT SF_CURRENT_DIR) OR
                       (if s_flags s AND SF_NEXT_DIR \<noteq> 0 then MF_DIR else 0),
            s_first := None\<rparr>,
          g\<lparr>mem := (mem g)(a := new_move arg1 arg2 arg3 (s_flags s AND SF_NEXT_DIR \<noteq> 0)),
            free_list := a # fl, irq_off := False\<rparr>)"
  by (cases g, cases "mem g a") (simp add: command_virtual_queue_step_def move_alloc_def mem_upd_def Let_def
      load_next_Some sched_add_timer_def irq_enable_def irq_disable_def new_move_def move_all_fields)

lemma queue_step_first:
  "free_list g = a # fl \<Longrightarrow> ucast arg2 \<noteq> (0::16 word) \<Longrightarrow> s_count s \<noteq> 0 \<Longrightarrow>
   s_first s = None \<Longrightarrow>
   command_virtual_queue_step s arg1 arg2 arg3 g =
     Inr (s\<lparr>s_first := Some a, s_plast := Some a\<rparr>,
          g\<lparr>mem := (mem g)(a := new_move arg1 arg2 arg3 (s_flags s AND SF_NEXT_DIR \<noteq> 0)),
            free_list := fl, irq_off := False\<rparr>)"
  by (cases g, cases "mem g a") (simp add: command_virtual_queue_step_def move_alloc_def mem_upd_def Let_def
      irq_enable_def irq_disable_def new_move_def move_all_fields)

lemma queue_step_append:
  "free_list g = a # fl \<Longrightarrow> ucast arg2 \<noteq> (0::16 word) \<Longrightarrow> s_count s \<noteq> 0 \<Longrightarrow>
   s_first s = Some f \<Longrightarrow> s_plast s = Some p \<Longrightarrow> p \<noteq> a \<Longrightarrow>
   command_virtual_queue_step s arg1 arg2 arg3 g =
     Inr (s\<lparr>s_plast := Some a\<rparr>,
          g\<lparr>mem := (mem g)(a := new_move arg1 arg2 arg3 (s_flags s AND SF_NEXT_DIR \<noteq> 0),
                            p := (mem g p)\<lparr>m_next := Some a\<rparr>),
            free_list := fl, irq_off := False\<rparr>)"
  by (cases g, cases "mem g a") (simp add: command_virtual_queue_step_def move_alloc_def mem_upd_def Let_def
      irq_enable_def irq_disable_def new_move_def move_all_fields)

lemma set_next_step_dir_eq:
  "command_virtual_set_next_step_dir s arg1 g =
     (s\<lparr>s_flags := (s_flags s AND NOT SF_NEXT_DIR) OR (if arg1 \<noteq> 0 then SF_NEXT_DIR else 0)\<rparr>,
      g\<lparr>irq_off := False\<rparr>)"
  by (simp add: command_virtual_set_next_step_dir_def Let_def irq_enable_def irq_disable_def)

lemma timer_reschedule:
  "time_armed s = Some t \<Longrightarrow> s_count s \<noteq> 1 \<Longrightarrow>
   timer_dispatch s g =
     Inr (s\<lparr>s_position := s_position s + dir_delta (bit (s_flags s) 0),
            s_count := s_count s - 1,
            time_waketime := time_waketime s + s_interval s,
            s_interval := s_interval s + scast (s_add s),
            time_armed := Some (time_waketime s + s_interval s)\<rparr>, g)"
  by (cases s) (simp add: timer_dispatch_def virtual_stepper_event_def Let_def dir_delta_def
      test_current_dir)

lemma timer_reload:
  "time_armed s = Some t \<Longrightarrow> s_count s = 1 \<Longrightarrow> s_first s = Some a \<Longrightarrow>
   timer_dispatch s g =
     Inr (s\<lparr>s_position := s_position s + dir_delta (bit (s_flags s) 0),
            time_waketime := time_waketime s + m_interval (mem g a),
            s_add := m_add (mem g a),
            s_interval := m_interval (mem g a) + scast (m_add (mem g a)),
            s_count := m_count (mem g a),
            s_flags := (s_flags s AND NOT SF_CURRENT_DIR) OR m_flags (mem g a),
            s_first := m_next (mem g a),
            time_armed := Some (time_waketime s + m_interval (mem g a))\<rparr>,
          g\<lparr>free_list := a # free_list g\<rparr>)"
  by (cases s) (simp add: timer_dispatch_def virtual_stepper_event_def Let_def dir_delta_def
      test_current_dir load_next_Some)

lemma timer_done:
  "time_armed s = Some t \<Longrightarrow> s_count s = 1 \<Longrightarrow> s_first s = None \<Longrightarrow>
   timer_dispatch s g =
     Inr (s\<lparr>s_position := s_position s + dir_delta (bit (s_flags s) 0),
            s_count := 0, time_armed := None\<rparr>, g)"
  by (cases s) (simp add: timer_dispatch_def virtual_stepper_event_def Let_def dir_delta_def
      test_current_dir load_next_None)

lemma timer_disarmed:
  "time_armed s = None \<Longrightarrow> timer_dispatch s g = Inl (Timer_not_armed, s, g)"
  by (simp add: timer_dispatch_def)

text \<open>The equations a run from a symbolic state rewrites with.\<close>

lemmas symbolic_run = set_next_step_dir_eq queue_step_idle queue_step_first
  timer_reschedule timer_reload timer_done new_move_def dir_delta_def

lemma stop_loop_flushes:
  "queue_path (mem g) (s_first s) as \<Longrightarrow>
   virtual_stepper_stop_loop (s, g) =
     Some (s\<lparr>s_first := None\<rparr>, g\<lparr>free_list := rev as @ free_list g\<rparr>)"
proof (induction as arbitrary: s g)
  case Nil
  then show ?case
    by (subst virtual_stepper_stop_loop.simps) simp
next
  case (Cons a as)
  from Cons.prems have f: "s_first s = Some a"
    and p: "queue_path (mem g) (m_next (mem g a)) as" by simp_all
  have "queue_path (mem (move_free a g)) (s_first (s\<lparr>s_first := m_next (mem g a)\<rparr>)) as"
    using p by (simp add: move_free_def)
  from Cons.IH [OF this] show ?case
    by (subst virtual_stepper_stop_loop.simps) (simp add: f move_free_def)
qed

lemma stop_result:
  assumes "queue_path (mem g) (s_first s) as"
  shows "\<exists>s' g'. virtual_stepper_stop s g = Some (s', g') \<and>
           s' = s\<lparr>time_armed := None, time_waketime := 0, s_count := 0, s_flags := 0,
                  s_first := None\<rparr> \<and>
           g' = g\<lparr>free_list := rev as @ free_list g\<rparr> \<and>
           virtual_stepper_stop s' g' = Some (s', g')"
proof -
  let ?s4 = "s\<lparr>time_armed := None, time_waketime := 0, s_count := 0, s_flags := 0\<rparr>"
  have "queue_path (mem g) (s_first ?s4) as" using assms by simp
  from stop_loop_flushes [OF this]
  have 1: "virtual_stepper_stop s g =
      Some (?s4\<lparr>s_first := None\<rparr>, g\<lparr>free_list := rev as @ free_list g\<rparr>)"
    by (simp add: virtual_stepper_stop_def sched_del_timer_def)
  let ?s' = "?s4\<lparr>s_first := None\<rparr>" and ?g' = "g\<lparr>free_list := rev as @ free_list g\<rparr>"
  have "queue_path (mem ?g') (s_first (?s'\<lparr>time_armed := None, time_waketime := 0, s_count := 0, s_flags := 0\<rparr>)) []"
    by simp
  from stop_loop_flushes [OF this]
  have 2: "virtual_stepper_stop ?s' ?g' = Some (?s', ?g')"
    by (simp add: virtual_stepper_stop_def sched_del_timer_def)
  from 1 2 show ?thesis by simp
qed

lemma shutdown_all:
  "virtual_stepper_shutdown ss g =
     Some (map (\<lambda>s. s\<lparr>time_armed := None, time_waketime := 0, s_count := 0, s_flags := 0,
                       s_first := None\<rparr>) ss, g)"
proof (induction ss)
  case Nil
  show ?case by simp
next
  case (Cons s ss)
  let ?s4 = "s\<lparr>s_first := None, time_armed := None, time_waketime := 0, s_count := 0, s_flags := 0\<rparr>"
  have "queue_path (mem g) (s_first ?s4) []" by simp
  from stop_loop_flushes [OF this]
  have "virtual_stepper_stop (s\<lparr>s_first := None\<rparr>) g =
      Some (s\<lparr>time_armed := None, time_waketime := 0, s_count := 0, s_flags := 0, s_first := None\<rparr>, g)"
    by (simp add: virtual_stepper_stop_def sched_del_timer_def)
  with Cons.IH show ?case by simp
qed

lemma busy_reached:
  "run [Queue_step 1000 1 0, Set_next_step_dir 1, Queue_step 2000 3 100, Queue_step 500 2 0]
     (command_config_virtual_stepper, pool4) = Inr (busy_stepper, busy_pool)"
  by (simp add: eval_defs busy_stepper_def busy_pool_def)

section \<open>Every operation keeps states well-formed\<close>

lemma replicate_count:
  "c \<noteq> (0::16 word) \<Longrightarrow> replicate (unat c) d = d # replicate (unat (c - 1)) d"
proof -
  assume c: "c \<noteq> 0"
  then have "unat c \<noteq> 0" by (simp add: unat_eq_0)
  then obtain n where n: "unat c = Suc n" by (cases "unat c") simp_all
  moreover have "unat (c - 1) = unat c - 1" using c by (rule unat_minus_one)
  ultimately show ?thesis by simp
qed

lemma inv_timer:
  assumes inv: "stepper_inv as (s, g)" and ev: "timer_dispatch s g = Inr (s', g')"
  shows "\<exists>as'. stepper_inv as' (s', g') \<and>
           (s_position s' - s_position s) # pending as' (s', g') = pending as (s, g) \<and>
           bit (s_flags s') 1 = bit (s_flags s) 1"
proof -
  from ev obtain t where armed: "time_armed s = Some t"
    by (cases "time_armed s") (simp_all add: timer_disarmed)
  with inv have cnt: "s_count s \<noteq> 0" by (auto simp: stepper_inv_def)
  show ?thesis
  proof (cases "s_count s = 1")
    case False
    with cnt have c1: "s_count s - 1 \<noteq> 0" by simp
    from timer_reschedule [OF armed False] ev
    have s': "s' = s\<lparr>s_position := s_position s + dir_delta (bit (s_flags s) 0),
            s_count := s_count s - 1,
            time_waketime := time_waketime s + s_interval s,
            s_interval := s_interval s + scast (s_add s),
            time_armed := Some (time_waketime s + s_interval s)\<rparr>" and g': "g' = g" by simp_all
    have "stepper_inv as (s', g')"
      using inv c1 by (simp add: stepper_inv_def s' g')
    moreover have "(s_position s' - s_position s) # pending as (s', g') = pending as (s, g)"
      by (simp add: pending_def s' g' replicate_count [OF cnt])
    moreover have "bit (s_flags s') 1 = bit (s_flags s) 1" by (simp add: s')
    ultimately show ?thesis by blast
  next
    case True
    show ?thesis
    proof (cases as)
      case Nil
      with inv have f: "s_first s = None" by (simp add: stepper_inv_def)
      from timer_done [OF armed True f] ev
      have s': "s' = s\<lparr>s_position := s_position s + dir_delta (bit (s_flags s) 0),
            s_count := 0, time_armed := None\<rparr>" and g': "g' = g" by simp_all
      have "stepper_inv [] (s', g')"
        using inv Nil by (simp add: stepper_inv_def s' g')
      moreover have "(s_position s' - s_position s) # pending [] (s', g') = pending as (s, g)"
        by (simp add: pending_def s' g' Nil True)
      moreover have "bit (s_flags s') 1 = bit (s_flags s) 1" by (simp add: s')
      ultimately show ?thesis by blast
    next
      case (Cons a as')
      with inv have f: "s_first s = Some a"
        and p: "queue_path (mem g) (m_next (mem g a)) as'"
        and d: "distinct (a # as' @ free_list g)"
        and ca: "m_count (mem g a) \<noteq> 0"
        and fa: "m_flags (mem g a) = 0 \<or> m_flags (mem g a) = MF_DIR"
        and rest: "\<forall>b\<in>set as'. m_count (mem g b) \<noteq> 0 \<and>
                     (m_flags (mem g b) = 0 \<or> m_flags (mem g b) = MF_DIR)"
        and pl: "as' \<noteq> [] \<longrightarrow> s_plast s = Some (last as')"
        by (simp_all add: stepper_inv_def)
      from timer_reload [OF armed True f] ev
      have s': "s' = s\<lparr>s_position := s_position s + dir_delta (bit (s_flags s) 0),
            time_waketime := time_waketime s + m_interval (mem g a),
            s_add := m_add (mem g a),
            s_interval := m_interval (mem g a) + scast (m_add (mem g a)),
            s_count := m_count (mem g a),
            s_flags := (s_flags s AND NOT SF_CURRENT_DIR) OR m_flags (mem g a),
            s_first := m_next (mem g a),
            time_armed := Some (time_waketime s + m_interval (mem g a))\<rparr>"
        and g': "g' = g\<lparr>free_list := a # free_list g\<rparr>" by simp_all
      have "stepper_inv as' (s', g')"
        using p d ca rest pl by (auto simp add: stepper_inv_def s' g')
      moreover have "(s_position s' - s_position s) # pending as' (s', g') = pending as (s, g)"
        by (simp add: pending_def s' g' Cons True bit_load_flags)
      moreover have "bit (s_flags s') 1 = bit (s_flags s) 1"
        using fa by (auto simp add: s' bit_load_flags bit_MF_DIR)
      ultimately show ?thesis by blast
    qed
  qed
qed

lemma inv_queue_step:
  assumes inv: "stepper_inv as (s, g)"
    and q: "command_virtual_queue_step s arg1 arg2 arg3 g = Inr (s', g')"
  shows "\<exists>as' a fl. free_list g = a # fl \<and> stepper_inv as' (s', g') \<and>
           pending as' (s', g') =
             pending as (s, g) @
             replicate (unat (ucast arg2 :: 16 word)) (dir_delta (bit (s_flags s) 1)) \<and>
           bit (s_flags s') 1 = bit (s_flags s) 1 \<and>
           s_position s' = s_position s \<and>
           m_count (mem g' a) = ucast arg2 \<and>
           m_flags (mem g' a) = (if bit (s_flags s) 1 then MF_DIR else 0)"
proof -
  from q obtain a fl where fl: "free_list g = a # fl"
    by (cases "free_list g") (simp_all add: queue_step_pool_empty)
  from q fl have c: "ucast arg2 \<noteq> (0::16 word)"
    by (auto simp add: queue_step_zero)
  from inv fl have d: "distinct as" "a \<notin> set as" "a \<notin> set fl" "distinct fl"
    "set as \<inter> set fl = {}"
    by (auto simp add: stepper_inv_def)
  let ?m = "new_move arg1 arg2 arg3 (s_flags s AND SF_NEXT_DIR \<noteq> 0)"
  have mc: "m_count ?m = ucast arg2" "m_next ?m = None"
    "m_flags ?m = (if bit (s_flags s) 1 then MF_DIR else 0)"
    by (simp_all add: new_move_def test_next_dir)
  show ?thesis
  proof (cases "s_count s = 0")
    case True
    with inv have as: "as = []" by (simp add: stepper_inv_def)
    from queue_step_idle [OF fl c True] q
    have s': "s' = s\<lparr>time_waketime := time_waketime s + arg1,
            time_armed := Some (time_waketime s + arg1),
            s_add := ucast arg3,
            s_interval := arg1 + scast (ucast arg3 :: 16 word),
            s_count := ucast arg2,
            s_flags := (s_flags s AND NOT SF_CURRENT_DIR) OR
                       (if s_flags s AND SF_NEXT_DIR \<noteq> 0 then MF_DIR else 0),
            s_first := None\<rparr>"
      and g': "g' = g\<lparr>mem := (mem g)(a := ?m), free_list := a # fl, irq_off := False\<rparr>"
      by simp_all
    have "stepper_inv [] (s', g')"
      using inv fl c by (simp add: stepper_inv_def s' g' as)
    moreover have "pending [] (s', g') =
        pending as (s, g) @
        replicate (unat (ucast arg2 :: 16 word)) (dir_delta (bit (s_flags s) 1))"
      by (simp add: pending_def s' g' as True bit_load_flags test_next_dir bit_MF_DIR)
    moreover have "bit (s_flags s') 1 = bit (s_flags s) 1"
      by (simp add: s' bit_load_flags bit_MF_DIR)
    moreover have "s_position s' = s_position s" by (simp add: s')
    moreover have "m_count (mem g' a) = ucast arg2"
      "m_flags (mem g' a) = (if bit (s_flags s) 1 then MF_DIR else 0)"
      by (simp_all add: g' mc)
    ultimately show ?thesis using fl by blast
  next
    case False
    with inv have armed: "time_armed s = Some (time_waketime s)"
      by (simp add: stepper_inv_def)
    show ?thesis
    proof (cases as)
      case Nil
      with inv have f: "s_first s = None" by (simp add: stepper_inv_def)
      from queue_step_first [OF fl c False f] q
      have s': "s' = s\<lparr>s_first := Some a, s_plast := Some a\<rparr>"
        and g': "g' = g\<lparr>mem := (mem g)(a := ?m), free_list := fl, irq_off := False\<rparr>"
        by simp_all
      have "stepper_inv [a] (s', g')"
        using d c False armed by (simp add: stepper_inv_def s' g' mc)
      moreover have "pending [a] (s', g') =
          pending as (s, g) @
          replicate (unat (ucast arg2 :: 16 word)) (dir_delta (bit (s_flags s) 1))"
        by (simp add: pending_def s' g' Nil mc bit_MF_DIR)
      moreover have "bit (s_flags s') 1 = bit (s_flags s) 1" "s_position s' = s_position s"
        by (simp_all add: s')
      moreover have "m_count (mem g' a) = ucast arg2"
        "m_flags (mem g' a) = (if bit (s_flags s) 1 then MF_DIR else 0)"
        by (simp_all add: g' mc)
      ultimately show ?thesis using fl by blast
    next
      case (Cons b bs)
      then have ne: "as \<noteq> []" by simp
      with inv Cons have f: "s_first s = Some b" and pl: "s_plast s = Some (last as)"
        and path: "queue_path (mem g) (s_first s) as"
        and ok: "\<forall>x\<in>set as. m_count (mem g x) \<noteq> 0 \<and>
                   (m_flags (mem g x) = 0 \<or> m_flags (mem g x) = MF_DIR)"
        by (simp_all add: stepper_inv_def)
      from ne d have la: "last as \<noteq> a" by (metis last_in_set)
      from queue_step_append [OF fl c False f pl la] q
      have s': "s' = s\<lparr>s_plast := Some a\<rparr>"
        and g': "g' = g\<lparr>mem := (mem g)(a := ?m, last as := (mem g (last as))\<lparr>m_next := Some a\<rparr>),
            free_list := fl, irq_off := False\<rparr>"
        by simp_all
      have same: "\<And>x. x \<in> set as \<Longrightarrow> m_count (mem g' x) = m_count (mem g x) \<and>
          m_flags (mem g' x) = m_flags (mem g x)"
        using d by (auto simp add: g')
      have new: "m_count (mem g' a) = ucast arg2"
        "m_flags (mem g' a) = (if bit (s_flags s) 1 then MF_DIR else 0)"
        using la by (simp_all add: g' mc)
      have "queue_path (mem g') (s_first s') (as @ [a])"
        using queue_path_append [OF path ne d(2) d(1), of ?m] by (simp add: s' g' mc)
      then have "stepper_inv (as @ [a]) (s', g')"
        using d ok same new c False armed fl
        by (auto simp add: stepper_inv_def s' bit_MF_DIR g')
      moreover have "pending (as @ [a]) (s', g') =
          pending as (s, g) @
          replicate (unat (ucast arg2 :: 16 word)) (dir_delta (bit (s_flags s) 1))"
      proof -
        have eq: "map (\<lambda>x. replicate (unat (m_count (mem g' x))) (dir_delta (bit (m_flags (mem g' x)) 0))) as =
              map (\<lambda>x. replicate (unat (m_count (mem g x))) (dir_delta (bit (m_flags (mem g x)) 0))) as"
          using same by (intro map_cong) simp_all
        show ?thesis
          by (simp add: pending_def s' new bit_MF_DIR eq)
      qed
      moreover have "bit (s_flags s') 1 = bit (s_flags s) 1" "s_position s' = s_position s"
        by (simp_all add: s')
      ultimately show ?thesis using fl new by blast
    qed
  qed
qed

lemma inv_set_next_step_dir:
  assumes inv: "stepper_inv as (s, g)"
    and q: "command_virtual_set_next_step_dir s arg1 g = (s', g')"
  shows "stepper_inv as (s', g') \<and> pending as (s', g') = pending as (s, g) \<and>
         bit (s_flags s') 1 = (arg1 \<noteq> 0) \<and> s_position s' = s_position s"
proof -
  from q have s': "s' = s\<lparr>s_flags := (s_flags s AND NOT SF_NEXT_DIR) OR
        (if arg1 \<noteq> 0 then SF_NEXT_DIR else 0)\<rparr>" and g': "g' = g\<lparr>irq_off := False\<rparr>"
    by (simp_all add: set_next_step_dir_eq)
  show ?thesis
    using inv by (simp add: stepper_inv_def pending_def s' g' bit_set_dir_flags)
qed

lemma inv_reset_step_clock:
  assumes inv: "stepper_inv as (s, g)"
    and q: "command_virtual_reset_step_clock s arg1 g = Inr (s', g')"
  shows "stepper_inv as (s', g') \<and> pending as (s', g') = pending as (s, g) \<and>
         bit (s_flags s') 1 = bit (s_flags s) 1 \<and> s_position s' = s_position s"
proof -
  from q have c: "s_count s = 0"
    by (auto simp add: command_virtual_reset_step_clock_def Let_def split: if_splits)
  with q have s': "s' = s\<lparr>time_waketime := arg1\<rparr>" and g': "g' = g\<lparr>irq_off := False\<rparr>"
    by (simp_all add: command_virtual_reset_step_clock_def irq_disable_def irq_enable_def)
  show ?thesis
    using inv c by (auto simp add: stepper_inv_def pending_def s' g')
qed

lemma inv_stop:
  assumes inv: "stepper_inv as (s, g)"
  shows "\<exists>s' g'. virtual_stepper_stop s g = Some (s', g') \<and> stepper_inv [] (s', g')"
proof -
  from inv have p: "queue_path (mem g) (s_first s) as" by (simp add: stepper_inv_def)
  from stop_result [OF p] inv show ?thesis
    by (auto simp add: stepper_inv_def)
qed

lemma inv_step_any:
  assumes inv: "stepper_inv as sg"
    and st: "step x sg = Inr sg' \<or> step x sg = Inl (e, sg')"
  shows "\<exists>as'. stepper_inv as' sg'"
proof -
  obtain s g where sg: "sg = (s, g)" by (cases sg)
  obtain s' g' where sg': "sg' = (s', g')" by (cases sg')
  note inv0 = inv [unfolded sg]
  show ?thesis
  proof (cases x)
    case (Queue_step arg1 arg2 arg3)
    show ?thesis
    proof (cases "free_list g")
      case Nil
      with st inv show ?thesis
        by (auto simp add: Queue_step sg queue_step_pool_empty)
    next
      case (Cons a fl)
      show ?thesis
      proof (cases "ucast arg2 = (0::16 word)")
        case True
        from queue_step_zero [OF Cons True] st
        have s': "s' = s"
          and g': "g' = g\<lparr>mem := (mem g)(a := (mem g a)\<lparr>m_interval := arg1, m_count := 0\<rparr>),
                 free_list := fl\<rparr>"
          by (simp_all add: Queue_step sg sg')
        from inv0 Cons have na: "a \<notin> set as" by (auto simp add: stepper_inv_def)
        then have "queue_path (mem g') (s_first s) as = queue_path (mem g) (s_first s) as"
          by (intro queue_path_cong) (auto simp add: g')
        with inv0 Cons na have "stepper_inv as (s', g')"
          by (auto simp add: stepper_inv_def s' g')
        then show ?thesis using sg' by blast
      next
        case False
        have "\<exists>r. command_virtual_queue_step s arg1 arg2 arg3 g = Inr r"
        proof (cases "s_count s = 0")
          case True
          from queue_step_idle [OF Cons False True] show ?thesis by blast
        next
          case c: False
          show ?thesis
          proof (cases as)
            case Nil
            with inv0 have "s_first s = None" by (simp add: stepper_inv_def)
            from queue_step_first [OF Cons False c this] show ?thesis by blast
          next
            case (Cons b bs)
            with inv0 have f: "s_first s = Some b" and pl: "s_plast s = Some (last as)"
              and nin: "a \<notin> set as" and ne: "as \<noteq> []"
              using \<open>free_list g = a # fl\<close> by (auto simp add: stepper_inv_def)
            from ne nin have "last as \<noteq> a" by (metis last_in_set)
            from queue_step_append [OF \<open>free_list g = a # fl\<close> False c f pl this]
            show ?thesis by blast
          qed
        qed
        then obtain r where r: "command_virtual_queue_step s arg1 arg2 arg3 g = Inr r" ..
        with st have "step x sg = Inr sg'" by (simp add: Queue_step sg)
        with r have q: "command_virtual_queue_step s arg1 arg2 arg3 g = Inr (s', g')"
          by (simp add: Queue_step sg sg')
        from inv_queue_step [OF inv0 q] show ?thesis using sg' by blast
      qed
    qed
  next
    case (Set_next_step_dir arg1)
    with st have "command_virtual_set_next_step_dir s arg1 g = (s', g')"
      by (simp add: sg sg')
    from inv_set_next_step_dir [OF inv0 this] show ?thesis using sg' by blast
  next
    case (Reset_step_clock arg1)
    show ?thesis
    proof (cases "s_count s = 0")
      case True
      with st have "command_virtual_reset_step_clock s arg1 g = Inr (s', g')"
        by (simp add: Reset_step_clock sg sg' command_virtual_reset_step_clock_def)
      from inv_reset_step_clock [OF inv0 this] show ?thesis using sg' by blast
    next
      case False
      with st have "s' = s" and "g' = g\<lparr>irq_off := True\<rparr>"
        by (simp_all add: Reset_step_clock sg sg' command_virtual_reset_step_clock_def
            irq_disable_def)
      with inv0 have "stepper_inv as (s', g')" by (simp add: stepper_inv_def)
      then show ?thesis using sg' by blast
    qed
  next
    case Timer_event
    show ?thesis
    proof (cases "time_armed s")
      case None
      with st inv show ?thesis by (auto simp add: Timer_event sg timer_disarmed)
    next
      case (Some t)
      then have "\<exists>r. timer_dispatch s g = Inr r"
        by (simp add: timer_dispatch_def split: prod.splits sched_flag.splits)
      with st have "timer_dispatch s g = Inr (s', g')" by (auto simp add: Timer_event sg sg')
      from inv_timer [OF inv0 this] show ?thesis using sg' by blast
    qed
  next
    case Stop
    from inv_stop [OF inv0] obtain s1 g1 where
      "virtual_stepper_stop s g = Some (s1, g1)" and i1: "stepper_inv [] (s1, g1)" by blast
    with st have "sg' = (s1, g1)" by (simp add: Stop sg)
    with i1 show ?thesis by blast
  qed
qed

lemma inv_run_any:
  assumes "stepper_inv as sg" and "run xs sg = Inr sg' \<or> run xs sg = Inl (e, sg')"
  shows "\<exists>as'. stepper_inv as' sg'"
  using assms
proof (induction xs arbitrary: as sg)
  case Nil
  then show ?case by auto
next
  case (Cons x xs)
  show ?case
  proof (cases "step x sg")
    case (Inl f)
    with Cons.prems(2) have "step x sg = Inl (e, sg')" by simp
    with inv_step_any [OF Cons.prems(1)] show ?thesis by blast
  next
    case (Inr sg1)
    from inv_step_any [OF Cons.prems(1), of x sg1] Inr obtain as1 where
      "stepper_inv as1 sg1" by blast
    moreover from Inr Cons.prems(2) have "run xs sg1 = Inr sg' \<or> run xs sg1 = Inl (e, sg')"
      by simp
    ultimately show ?thesis by (rule Cons.IH)
  qed
qed

section \<open>Runs and the moves they enqueue\<close>

lemma move_steps_pair: "move_steps (c, d) = replicate (unat c) (dir_delta d)"
  by (simp add: move_steps_def)

lemma step_trace_Cons:
  "step x sg = Inr sg1 \<Longrightarrow> step_trace (x # xs) sg = step_trace [x] sg @ step_trace xs sg1"
  by simp

lemma enqueued_Cons:
  "step x sg = Inr sg1 \<Longrightarrow> enqueued (x # xs) sg = enqueued [x] sg @ enqueued xs sg1"
  by simp

lemma spec_moves_Cons:
  "spec_moves d (x # xs) = spec_moves d [x] @ spec_moves (next_dir_after d x) xs"
  by (cases x) simp_all

lemma timer_events_Cons: "timer_events (x # xs) = timer_events [x] + timer_events xs"
  by (simp add: timer_events_def)

lemma inv_step:
  assumes inv: "stepper_inv as sg" and st: "step x sg = Inr sg1" and xs: "x \<noteq> Stop"
  shows "\<exists>as1. stepper_inv as1 sg1 \<and>
           map snd (step_trace [x] sg) @ pending as1 sg1 =
             pending as sg @ concat (map move_steps (spec_moves (bit (s_flags (fst sg)) 1) [x])) \<and>
           enqueued [x] sg =
             map (\<lambda>m. (fst m, if snd m then MF_DIR else 0))
               (spec_moves (bit (s_flags (fst sg)) 1) [x]) \<and>
           length (step_trace [x] sg) = timer_events [x] \<and>
           s_position (fst sg1) = s_position (fst sg) + sum_list (map snd (step_trace [x] sg)) \<and>
           bit (s_flags (fst sg1)) 1 = next_dir_after (bit (s_flags (fst sg)) 1) x"
proof -
  obtain s g where sg: "sg = (s, g)" by (cases sg)
  obtain s1 g1 where sg1: "sg1 = (s1, g1)" by (cases sg1)
  show ?thesis
  proof (cases x)
    case (Queue_step arg1 arg2 arg3)
    with st sg sg1 have q: "command_virtual_queue_step s arg1 arg2 arg3 g = Inr (s1, g1)" by simp
    from inv_queue_step [OF inv [unfolded sg] q]
    obtain as1 a fl where fl: "free_list g = a # fl" and inv1: "stepper_inv as1 (s1, g1)"
      and pe: "pending as1 (s1, g1) = pending as (s, g) @
             replicate (unat (ucast arg2 :: 16 word)) (dir_delta (bit (s_flags s) 1))"
      and b1: "bit (s_flags s1) 1 = bit (s_flags s) 1"
      and po: "s_position s1 = s_position s"
      and mc: "m_count (mem g1 a) = ucast arg2"
      and mf: "m_flags (mem g1 a) = (if bit (s_flags s) 1 then MF_DIR else 0)"
      by blast
    have "map snd (step_trace [x] sg) @ pending as1 sg1 =
        pending as sg @ concat (map move_steps (spec_moves (bit (s_flags (fst sg)) 1) [x]))"
      by (simp add: Queue_step sg sg1 q pe move_steps_pair)
    moreover have "enqueued [x] sg = map (\<lambda>m. (fst m, if snd m then MF_DIR else 0))
        (spec_moves (bit (s_flags (fst sg)) 1) [x])"
      by (simp add: Queue_step sg q fl mc mf)
    moreover have "length (step_trace [x] sg) = timer_events [x]"
      by (simp add: Queue_step sg q timer_events_def)
    moreover have "s_position (fst sg1) = s_position (fst sg) + sum_list (map snd (step_trace [x] sg))"
      by (simp add: Queue_step sg sg1 q po)
    moreover have "bit (s_flags (fst sg1)) 1 = next_dir_after (bit (s_flags (fst sg)) 1) x"
      using b1 by (simp add: Queue_step sg sg1)
    ultimately show ?thesis using inv1 sg1 by blast
  next
    case (Set_next_step_dir arg1)
    with st sg sg1 have q: "command_virtual_set_next_step_dir s arg1 g = (s1, g1)" by simp
    from inv_set_next_step_dir [OF inv [unfolded sg] q]
    have inv1: "stepper_inv as (s1, g1)"
      and pe: "pending as (s1, g1) = pending as (s, g)"
      and b1: "bit (s_flags s1) 1 = (arg1 \<noteq> 0)"
      and po: "s_position s1 = s_position s"
      by simp_all
    have "map snd (step_trace [x] sg) @ pending as sg1 =
        pending as sg @ concat (map move_steps (spec_moves (bit (s_flags (fst sg)) 1) [x]))"
      by (simp add: Set_next_step_dir sg sg1 q pe)
    moreover have "enqueued [x] sg = map (\<lambda>m. (fst m, if snd m then MF_DIR else 0))
        (spec_moves (bit (s_flags (fst sg)) 1) [x])"
      by (simp add: Set_next_step_dir sg q split: list.splits)
    moreover have "length (step_trace [x] sg) = timer_events [x]"
      by (simp add: Set_next_step_dir sg q timer_events_def)
    moreover have "s_position (fst sg1) = s_position (fst sg) + sum_list (map snd (step_trace [x] sg))"
      by (simp add: Set_next_step_dir sg sg1 q po)
    moreover have "bit (s_flags (fst sg1)) 1 = next_dir_after (bit (s_flags (fst sg)) 1) x"
      using b1 by (simp add: Set_next_step_dir sg sg1)
    ultimately show ?thesis using inv1 sg1 by blast
  next
    case (Reset_step_clock arg1)
    with st sg sg1 have q: "command_virtual_reset_step_clock s arg1 g = Inr (s1, g1)" by simp
    from inv_reset_step_clock [OF inv [unfolded sg] q]
    have inv1: "stepper_inv as (s1, g1)"
      and pe: "pending as (s1, g1) = pending as (s, g)"
      and b1: "bit (s_flags s1) 1 = bit (s_flags s) 1"
      and po: "s_position s1 = s_position s"
      by simp_all
    have "map snd (step_trace [x] sg) @ pending as sg1 =
        pending as sg @ concat (map move_steps (spec_moves (bit (s_flags (fst sg)) 1) [x]))"
      by (simp add: Reset_step_clock sg sg1 q pe)
    moreover have "enqueued [x] sg = map (\<lambda>m. (fst m, if snd m then MF_DIR else 0))
        (spec_moves (bit (s_flags (fst sg)) 1) [x])"
      by (simp add: Reset_step_clock sg q split: list.splits)
    moreover have "length (step_trace [x] sg) = timer_events [x]"
      by (simp add: Reset_step_clock sg q timer_events_def)
    moreover have "s_position (fst sg1) = s_position (fst sg) + sum_list (map snd (step_trace [x] sg))"
      by (simp add: Reset_step_clock sg sg1 q po)
    moreover have "bit (s_flags (fst sg1)) 1 = next_dir_after (bit (s_flags (fst sg)) 1) x"
      using b1 by (simp add: Reset_step_clock sg sg1)
    ultimately show ?thesis using inv1 sg1 by blast
  next
    case Timer_event
    with st sg sg1 have q: "timer_dispatch s g = Inr (s1, g1)" by simp
    then obtain tm where armed: "time_armed s = Some tm"
      by (cases "time_armed s") (simp_all add: timer_disarmed)
    from inv_timer [OF inv [unfolded sg] q]
    obtain as1 where inv1: "stepper_inv as1 (s1, g1)"
      and pe: "(s_position s1 - s_position s) # pending as1 (s1, g1) = pending as (s, g)"
      and b1: "bit (s_flags s1) 1 = bit (s_flags s) 1"
      by blast
    have "map snd (step_trace [x] sg) @ pending as1 sg1 =
        pending as sg @ concat (map move_steps (spec_moves (bit (s_flags (fst sg)) 1) [x]))"
      by (simp add: Timer_event sg sg1 q armed pe)
    moreover have "enqueued [x] sg = map (\<lambda>m. (fst m, if snd m then MF_DIR else 0))
        (spec_moves (bit (s_flags (fst sg)) 1) [x])"
      by (simp add: Timer_event sg q split: list.splits)
    moreover have "length (step_trace [x] sg) = timer_events [x]"
      by (simp add: Timer_event sg q armed timer_events_def)
    moreover have "s_position (fst sg1) = s_position (fst sg) + sum_list (map snd (step_trace [x] sg))"
      by (simp add: Timer_event sg sg1 q armed)
    moreover have "bit (s_flags (fst sg1)) 1 = next_dir_after (bit (s_flags (fst sg)) 1) x"
      using b1 by (simp add: Timer_event sg sg1)
    ultimately show ?thesis using inv1 sg1 by blast
  next
    case Stop
    with xs show ?thesis by simp
  qed
qed

lemma run_pending:
  assumes "stepper_inv as sg" and "run xs sg = Inr sg'" and "Stop \<notin> set xs"
  shows "\<exists>as'. stepper_inv as' sg' \<and>
           map snd (step_trace xs sg) @ pending as' sg' =
             pending as sg @ concat (map move_steps (spec_moves (bit (s_flags (fst sg)) 1) xs)) \<and>
           enqueued xs sg =
             map (\<lambda>m. (fst m, if snd m then MF_DIR else 0))
               (spec_moves (bit (s_flags (fst sg)) 1) xs) \<and>
           length (step_trace xs sg) = timer_events xs \<and>
           s_position (fst sg') = s_position (fst sg) + sum_list (map snd (step_trace xs sg))"
  using assms
proof (induction xs arbitrary: as sg)
  case Nil
  then show ?case by (auto simp add: timer_events_def)
next
  case (Cons x xs)
  from Cons.prems(2) obtain sg1 where st: "step x sg = Inr sg1" and rn: "run xs sg1 = Inr sg'"
    by (auto split: sum.splits)
  from Cons.prems(3) have ns: "Stop \<notin> set xs" and xs: "x \<noteq> Stop" by auto
  from inv_step [OF Cons.prems(1) st xs] obtain as1 where inv1: "stepper_inv as1 sg1"
    and tr1: "map snd (step_trace [x] sg) @ pending as1 sg1 =
             pending as sg @ concat (map move_steps (spec_moves (bit (s_flags (fst sg)) 1) [x]))"
    and en1: "enqueued [x] sg = map (\<lambda>m. (fst m, if snd m then MF_DIR else 0))
               (spec_moves (bit (s_flags (fst sg)) 1) [x])"
    and le1: "length (step_trace [x] sg) = timer_events [x]"
    and ps1: "s_position (fst sg1) = s_position (fst sg) + sum_list (map snd (step_trace [x] sg))"
    and b1: "bit (s_flags (fst sg1)) 1 = next_dir_after (bit (s_flags (fst sg)) 1) x"
    by blast
  from Cons.IH [OF inv1 rn ns] obtain as' where
    inv': "stepper_inv as' sg'"
    and tr: "map snd (step_trace xs sg1) @ pending as' sg' =
           pending as1 sg1 @ concat (map move_steps (spec_moves (bit (s_flags (fst sg1)) 1) xs))"
    and en: "enqueued xs sg1 = map (\<lambda>m. (fst m, if snd m then MF_DIR else 0))
             (spec_moves (bit (s_flags (fst sg1)) 1) xs)"
    and le: "length (step_trace xs sg1) = timer_events xs"
    and ps: "s_position (fst sg') = s_position (fst sg1) + sum_list (map snd (step_trace xs sg1))"
    by blast
  let ?d = "bit (s_flags (fst sg)) 1"
  have "map snd (step_trace (x # xs) sg) @ pending as' sg' =
      map snd (step_trace [x] sg) @ (map snd (step_trace xs sg1) @ pending as' sg')"
    unfolding step_trace_Cons [OF st, where xs = xs] by simp
  also have "\<dots> = (map snd (step_trace [x] sg) @ pending as1 sg1) @
      concat (map move_steps (spec_moves (next_dir_after ?d x) xs))"
    unfolding tr b1 by simp
  also have "\<dots> = pending as sg @ concat (map move_steps (spec_moves ?d (x # xs)))"
    unfolding tr1 spec_moves_Cons [of ?d x xs] by simp
  finally have 1: "map snd (step_trace (x # xs) sg) @ pending as' sg' =
      pending as sg @ concat (map move_steps (spec_moves ?d (x # xs)))" .
  have 2: "enqueued (x # xs) sg = map (\<lambda>m. (fst m, if snd m then MF_DIR else 0))
      (spec_moves ?d (x # xs))"
    unfolding enqueued_Cons [OF st, where xs = xs] spec_moves_Cons [of ?d x xs] en1 en b1 by simp
  have 3: "length (step_trace (x # xs) sg) = timer_events (x # xs)"
    unfolding step_trace_Cons [OF st, where xs = xs] timer_events_Cons [of x xs] using le1 le by simp
  have 4: "s_position (fst sg') = s_position (fst sg) + sum_list (map snd (step_trace (x # xs) sg))"
    unfolding step_trace_Cons [OF st, where xs = xs] ps ps1 by simp
  from inv' 1 2 3 4 show ?case by blast
qed

lemma length_move_steps:
  "length (concat (map move_steps ms)) = sum_list (map (\<lambda>m. unat (fst m)) ms)"
  by (induction ms) (simp_all add: move_steps_def)

lemma sum_move_steps:
  "sum_list (concat (map move_steps ms)) =
     sum_list (map (\<lambda>m. if snd m then ucast (fst m) else - ucast (fst m)) ms)"
  by (induction ms) (simp_all add: move_steps_def sum_list_replicate dir_delta_def)

lemma set_move_steps: "e \<in> set (concat (map move_steps ms)) \<Longrightarrow> e = 1 \<or> e = - 1"
  by (auto simp add: move_steps_def dir_delta_def split: if_splits)

lemma idle_inv:
  "s_count s = 0 \<Longrightarrow> s_first s = None \<Longrightarrow> time_armed s = None \<Longrightarrow> distinct (free_list g) \<Longrightarrow>
   stepper_inv [] (s, g)"
  by (simp add: stepper_inv_def)

lemma inv_idle_pending: "stepper_inv as (s, g) \<Longrightarrow> s_count s = 0 \<Longrightarrow> pending as (s, g) = []"
  by (simp add: stepper_inv_def pending_def)

lemma pending_Nil_iff:
  "stepper_inv as sg \<Longrightarrow> pending as sg = [] \<longleftrightarrow> s_count (fst sg) = 0"
  by (auto simp add: stepper_inv_def pending_def unat_eq_0)

lemma drain_pending:
  "stepper_inv as sg \<Longrightarrow> length (pending as sg) = n \<Longrightarrow>
   \<exists>sg'. run (replicate n Timer_event) sg = Inr sg' \<and> s_count (fst sg') = 0 \<and>
     time_armed (fst sg') = None \<and>
     s_position (fst sg') = s_position (fst sg) + sum_list (pending as sg)"
proof (induction n arbitrary: as sg)
  case 0
  then have "pending as sg = []" by simp
  with 0 have c: "s_count (fst sg) = 0" by (simp add: pending_Nil_iff)
  with 0 have "time_armed (fst sg) = None" by (simp add: stepper_inv_def)
  with c \<open>pending as sg = []\<close> show ?case by simp
next
  case (Suc n)
  obtain s g where sg: "sg = (s, g)" by (cases sg)
  from Suc.prems have ne: "pending as sg \<noteq> []" by auto
  with Suc.prems(1) have c: "s_count s \<noteq> 0" by (simp add: pending_Nil_iff sg)
  with Suc.prems(1) have armed: "time_armed s = Some (time_waketime s)"
    by (simp add: stepper_inv_def sg)
  then have "\<exists>r. timer_dispatch s g = Inr r"
    by (simp add: timer_dispatch_def split: prod.splits sched_flag.splits)
  then obtain s1 g1 where t: "timer_dispatch s g = Inr (s1, g1)" by auto
  from inv_timer [OF Suc.prems(1) [unfolded sg] t] obtain as1 where
    inv1: "stepper_inv as1 (s1, g1)"
    and pe: "(s_position s1 - s_position s) # pending as1 (s1, g1) = pending as (s, g)"
    by blast
  from pe Suc.prems(2) have "length (pending as1 (s1, g1)) = n"
    by (metis sg length_Cons nat.inject)
  from Suc.IH [OF inv1 this] obtain sg' where
    r: "run (replicate n Timer_event) (s1, g1) = Inr sg'"
    and z: "s_count (fst sg') = 0" and d: "time_armed (fst sg') = None"
    and p: "s_position (fst sg') = s_position s1 + sum_list (pending as1 (s1, g1))"
    by auto
  have "run (replicate (Suc n) Timer_event) sg = Inr sg'"
    using t r by (simp add: sg)
  moreover have "s_position (fst sg') = s_position (fst sg) + sum_list (pending as sg)"
    unfolding p sg pe [symmetric] by simp
  ultimately show ?case using z d by blast
qed

lemma run_idle_to_idle:
  assumes "s_count s = 0" and "s_first s = None" and "time_armed s = None"
    and "distinct (free_list g)" and "Stop \<notin> set xs"
    and "run xs (s, g) = Inr (s', g')"
  shows "\<exists>rest. (s_count s' = 0 \<longrightarrow> rest = []) \<and>
         map snd (step_trace xs (s, g)) @ rest =
           concat (map move_steps (spec_moves (bit (s_flags s) 1) xs)) \<and>
         enqueued xs (s, g) =
           map (\<lambda>m. (fst m, if snd m then MF_DIR else 0)) (spec_moves (bit (s_flags s) 1) xs) \<and>
         length (step_trace xs (s, g)) = timer_events xs \<and>
         s_position s' = s_position s + sum_list (map snd (step_trace xs (s, g)))"
proof -
  have inv: "stepper_inv [] (s, g)" using assms(1-4) by (rule idle_inv)
  from run_pending [OF inv assms(6) assms(5)] obtain as' where
    inv': "stepper_inv as' (s', g')"
    and tr: "map snd (step_trace xs (s, g)) @ pending as' (s', g') =
           pending [] (s, g) @ concat (map move_steps (spec_moves (bit (s_flags (fst (s, g))) 1) xs))"
    and en: "enqueued xs (s, g) = map (\<lambda>m. (fst m, if snd m then MF_DIR else 0))
             (spec_moves (bit (s_flags (fst (s, g))) 1) xs)"
    and le: "length (step_trace xs (s, g)) = timer_events xs"
    and ps: "s_position (fst (s', g')) = s_position (fst (s, g)) + sum_list (map snd (step_trace xs (s, g)))"
    by blast
  have p0: "pending [] (s, g) = []" using inv assms(1) by (rule inv_idle_pending)
  have "s_count s' = 0 \<longrightarrow> pending as' (s', g') = []"
    using inv' by (simp add: inv_idle_pending)
  with tr en le ps p0 show ?thesis by (intro exI [of _ "pending as' (s', g')"]) simp
qed

section \<open>Step counts and position\<close>

text \<open>
  C1.  Take an idle stepper in a well-formed state (count zero, empty queue, timer
  disarmed, no slot twice in the free list) and any sequence of enqueue, set-direction
  and reset-clock commands and timer events, without a stop, that runs without a fault
  (so every enqueued count is positive).  The timer events delivered so far never
  exceed the sum of the counts of the enqueued moves, and the stepper is idle exactly
  when they equal that sum.  From wherever the sequence has left the stepper, the
  timer events still owed (the sum less those delivered) all fire, one after the
  other, and leave the stepper idle with its timer disarmed: the stepper does become
  idle again, after exactly as many timer events as the counts add up to, and not
  before.  The position is then the initial position plus the sum over the enqueued
  moves of their count, added when the descriptor's direction bit is set and
  subtracted when it is clear, in 32-bit modular arithmetic.  Every timer event of the
  run changed position by \<open>+1\<close> or \<open>-1\<close>, and so does every call of the timer
  callback in any state.
\<close>

theorem step_events_and_position:
  assumes "s_count s = 0" and "s_first s = None" and "time_armed s = None"
    and "distinct (free_list g)" and "Stop \<notin> set xs"
    and "run xs (s, g) = Inr (s', g')"
  shows "timer_events xs \<le> sum_list (map (\<lambda>m. unat (fst m)) (enqueued xs (s, g))) \<and>
         (s_count s' = 0 \<longleftrightarrow>
            timer_events xs = sum_list (map (\<lambda>m. unat (fst m)) (enqueued xs (s, g)))) \<and>
         (\<exists>s'' g''.
            run (replicate
                  (sum_list (map (\<lambda>m. unat (fst m)) (enqueued xs (s, g))) - timer_events xs)
                  Timer_event) (s', g') = Inr (s'', g'') \<and>
            s_count s'' = 0 \<and> time_armed s'' = None \<and>
            s_position s'' = s_position s +
              sum_list (map (\<lambda>m. if snd m AND MF_DIR \<noteq> 0 then ucast (fst m) else - ucast (fst m))
                (enqueued xs (s, g)))) \<and>
         (s_count s' = 0 \<longrightarrow>
            s_position s' = s_position s +
              sum_list (map (\<lambda>m. if snd m AND MF_DIR \<noteq> 0 then ucast (fst m) else - ucast (fst m))
                (enqueued xs (s, g)))) \<and>
         length (step_trace xs (s, g)) = timer_events xs \<and>
         (\<forall>e\<in>set (step_trace xs (s, g)). snd e = 1 \<or> snd e = - 1) \<and>
         (s_position (fst (snd (virtual_stepper_event t h))) = s_position t + 1 \<or>
          s_position (fst (snd (virtual_stepper_event t h))) = s_position t - 1)"
proof -
  let ?sm = "spec_moves (bit (s_flags s) 1) xs"
  let ?total = "sum_list (map (\<lambda>m. unat (fst m)) (enqueued xs (s, g)))"
  let ?net = "sum_list (map (\<lambda>m. if snd m AND MF_DIR \<noteq> 0 then ucast (fst m) else - ucast (fst m))
                (enqueued xs (s, g))) :: 32 word"
  have inv: "stepper_inv [] (s, g)" using assms(1-4) by (rule idle_inv)
  have p0: "pending [] (s, g) = []" using inv assms(1) by (rule inv_idle_pending)
  from run_pending [OF inv assms(6) assms(5)] obtain as' where
    inv': "stepper_inv as' (s', g')"
    and tr0: "map snd (step_trace xs (s, g)) @ pending as' (s', g') =
           pending [] (s, g) @ concat (map move_steps (spec_moves (bit (s_flags (fst (s, g))) 1) xs))"
    and en0: "enqueued xs (s, g) = map (\<lambda>m. (fst m, if snd m then MF_DIR else 0))
             (spec_moves (bit (s_flags (fst (s, g))) 1) xs)"
    and le: "length (step_trace xs (s, g)) = timer_events xs"
    and ps0: "s_position (fst (s', g')) = s_position (fst (s, g)) + sum_list (map snd (step_trace xs (s, g)))"
    by blast
  let ?pe = "pending as' (s', g')"
  from tr0 p0 have tr: "map snd (step_trace xs (s, g)) @ ?pe = concat (map move_steps ?sm)"
    by simp
  from en0 have en: "enqueued xs (s, g) = map (\<lambda>m. (fst m, if snd m then MF_DIR else 0)) ?sm"
    by simp
  from ps0 have ps: "s_position s' = s_position s + sum_list (map snd (step_trace xs (s, g)))"
    by simp
  have tot: "?total = length (concat (map move_steps ?sm))"
    unfolding en length_move_steps by (simp add: comp_def)
  have net: "?net = sum_list (concat (map move_steps ?sm))"
    unfolding en sum_move_steps by (simp add: comp_def dir_flag_test cong: if_cong)
  have len: "timer_events xs + length ?pe = ?total"
    unfolding tot tr [symmetric] using le by simp
  have sum: "sum_list (map snd (step_trace xs (s, g))) + sum_list ?pe = ?net"
    unfolding net tr [symmetric] by simp
  have 1: "timer_events xs \<le> ?total" using len by simp
  have 2: "s_count s' = 0 \<longleftrightarrow> timer_events xs = ?total"
    using pending_Nil_iff [OF inv'] len by auto
  have k: "length ?pe = ?total - timer_events xs" using len by simp
  from drain_pending [OF inv' k] obtain s'' g'' where
    r: "run (replicate (?total - timer_events xs) Timer_event) (s', g') = Inr (s'', g'')"
    and z: "s_count s'' = 0" and d: "time_armed s'' = None"
    and p: "s_position s'' = s_position s' + sum_list ?pe"
    by auto
  have "s_position s'' = s_position s + ?net"
    unfolding p ps sum [symmetric] by simp
  with r z d have 3: "\<exists>s'' g''.
            run (replicate (?total - timer_events xs) Timer_event) (s', g') = Inr (s'', g'') \<and>
            s_count s'' = 0 \<and> time_armed s'' = None \<and> s_position s'' = s_position s + ?net"
    by blast
  have 4: "s_count s' = 0 \<longrightarrow> s_position s' = s_position s + ?net"
  proof
    assume "s_count s' = 0"
    with inv' have "?pe = []" by (simp add: pending_Nil_iff)
    with sum ps show "s_position s' = s_position s + ?net" by simp
  qed
  have 5: "\<forall>e\<in>set (step_trace xs (s, g)). snd e = 1 \<or> snd e = - 1"
  proof
    fix e assume "e \<in> set (step_trace xs (s, g))"
    then have "snd e \<in> set (map snd (step_trace xs (s, g)) @ ?pe)" by simp
    then show "snd e = 1 \<or> snd e = - 1" unfolding tr by (rule set_move_steps)
  qed
  have 6: "s_position (fst (snd (virtual_stepper_event t h))) = s_position t + 1 \<or>
          s_position (fst (snd (virtual_stepper_event t h))) = s_position t - 1"
    by (simp add: virtual_stepper_event_def virtual_stepper_load_next_def Let_def
        split: option.splits)
  from 1 2 3 4 le 5 6 show ?thesis by blast
qed

theorem step_events_and_position_witness:
  "\<exists>s' g' s'' g''.
     run [Queue_step 1000 1 0, Set_next_step_dir 1, Queue_step 2000 3 100,
          Timer_event, Timer_event]
       (command_config_virtual_stepper, pool4) = Inr (s', g') \<and>
     s_count s' = 2 \<and> s_position s' = 0 \<and>
     enqueued [Queue_step 1000 1 0, Set_next_step_dir 1, Queue_step 2000 3 100,
               Timer_event, Timer_event]
       (command_config_virtual_stepper, pool4) = [(1, 0), (3, 1)] \<and>
     timer_events [Queue_step 1000 1 0, Set_next_step_dir 1, Queue_step 2000 3 100,
               Timer_event, Timer_event] = 2 \<and>
     run (replicate (1 + 3 - 2) Timer_event) (s', g') = Inr (s'', g'') \<and>
     s_count s'' = 0 \<and> time_armed s'' = None \<and>
     s_position s'' = s_position command_config_virtual_stepper + (- 1 + 3)"
proof -
  let ?xs = "[Queue_step 1000 1 0, Set_next_step_dir 1, Queue_step 2000 3 100,
              Timer_event, Timer_event]"
  let ?s = command_config_virtual_stepper
  have "\<exists>s' g'. run ?xs (?s, pool4) = Inr (s', g') \<and> s_count s' = 2 \<and> s_position s' = 0"
    by (simp add: eval_defs)
  then obtain s' g' where r: "run ?xs (?s, pool4) = Inr (s', g')"
    and c: "s_count s' = 2" and p: "s_position s' = 0" by blast
  have e: "enqueued ?xs (?s, pool4) = [(1, 0), (3, 1)]"
    by (simp add: eval_defs)
  have n: "timer_events ?xs = 2" by (simp add: timer_events_def)
  have h: "s_count ?s = 0" "s_first ?s = None" "time_armed ?s = None"
    "distinct (free_list pool4)" "Stop \<notin> set ?xs"
    by (simp_all add: command_config_virtual_stepper_def pool4_def)
  from step_events_and_position [OF h r, of ?s pool4, unfolded e n]
  obtain s'' g'' where "run (replicate (1 + 3 - 2) Timer_event) (s', g') = Inr (s'', g'')"
    and "s_count s'' = 0" and "time_armed s'' = None"
    and "s_position s'' = s_position ?s + (- 1 + 3)"
    by (auto simp add: MF_DIR_def)
  with r c p e n show ?thesis by blast
qed

section \<open>When the direction of a move is fixed\<close>

text \<open>
  C2, as the claim states it, fails.  Two moves are enqueued while the next-direction
  flag is clear, then the flag is set while the first move is active.  When the timer
  event loads the second move the flag is set, yet the move runs with the direction
  bit clear: its three steps each decrement position.
\<close>

theorem direction_at_load_counterexample:
  "\<exists>s g s' g'.
     run [Queue_step 1000 1 0, Queue_step 2000 3 100, Set_next_step_dir 1]
       (command_config_virtual_stepper, pool4) = Inr (s, g) \<and>
     s_flags s AND SF_NEXT_DIR \<noteq> 0 \<and> s_count s = 1 \<and> s_first s = Some 0 \<and>
     timer_dispatch s g = Inr (s', g') \<and>
     s_count s' = 3 \<and> s_first s' = None \<and> s_flags s' AND SF_CURRENT_DIR = 0 \<and>
     map snd (step_trace [Timer_event, Timer_event, Timer_event] (s', g')) = [- 1, - 1, - 1]"
  by (simp add: eval_defs)

text \<open>
  C2, amended.  The direction a move executes with is the value of the next-direction
  flag at the time the move is enqueued.  For every fault-free run from an idle
  well-formed stepper, the position changes made by its timer events are, move after
  move in queue order, \<open>count\<close> steps in the direction the flag had when that move was
  enqueued (a prefix of them while the stepper is still active, all of them once it is
  idle), and that value is the direction bit stored in the descriptor.  A
  set-next-direction command changes neither the current-direction bit of the active
  move nor pool memory nor the queue: it affects exactly the moves enqueued after it.
\<close>

theorem direction_fixed_at_enqueue:
  assumes "s_count s = 0" and "s_first s = None" and "time_armed s = None"
    and "distinct (free_list g)" and "Stop \<notin> set xs"
    and "run xs (s, g) = Inr (s', g')"
  shows "(\<exists>rest. (s_count s' = 0 \<longrightarrow> rest = []) \<and>
            map snd (step_trace xs (s, g)) @ rest =
              concat (map move_steps (spec_moves (s_flags s AND SF_NEXT_DIR \<noteq> 0) xs))) \<and>
         enqueued xs (s, g) =
           map (\<lambda>m. (fst m, if snd m then MF_DIR else 0))
             (spec_moves (s_flags s AND SF_NEXT_DIR \<noteq> 0) xs) \<and>
         s_flags (fst (command_virtual_set_next_step_dir t arg1 h)) AND SF_CURRENT_DIR =
           s_flags t AND SF_CURRENT_DIR \<and>
         mem (snd (command_virtual_set_next_step_dir t arg1 h)) = mem h \<and>
         s_first (fst (command_virtual_set_next_step_dir t arg1 h)) = s_first t"
proof -
  from run_idle_to_idle [OF assms] have
    "\<exists>rest. (s_count s' = 0 \<longrightarrow> rest = []) \<and>
            map snd (step_trace xs (s, g)) @ rest =
              concat (map move_steps (spec_moves (s_flags s AND SF_NEXT_DIR \<noteq> 0) xs))"
    and "enqueued xs (s, g) =
           map (\<lambda>m. (fst m, if snd m then MF_DIR else 0))
             (spec_moves (s_flags s AND SF_NEXT_DIR \<noteq> 0) xs)"
    unfolding test_next_dir by blast+
  moreover have "s_flags (fst (command_virtual_set_next_step_dir t arg1 h)) AND SF_CURRENT_DIR =
           s_flags t AND SF_CURRENT_DIR"
    by (rule bit_eqI)
      (auto simp add: set_next_step_dir_eq bit_and_iff bit_set_dir_flags bit_SF_CURRENT_DIR)
  moreover have "mem (snd (command_virtual_set_next_step_dir t arg1 h)) = mem h"
    "s_first (fst (command_virtual_set_next_step_dir t arg1 h)) = s_first t"
    by (simp_all add: set_next_step_dir_eq)
  ultimately show ?thesis by blast
qed

theorem direction_fixed_at_enqueue_witness:
  "map snd (step_trace [Queue_step 1000 1 0, Queue_step 2000 3 100, Set_next_step_dir 1,
       Queue_step 500 2 0, Timer_event, Timer_event, Timer_event, Timer_event, Timer_event,
       Timer_event] (command_config_virtual_stepper, pool4)) =
     [- 1, - 1, - 1, - 1, 1, 1] \<and>
   concat (map move_steps (spec_moves False
     [Queue_step 1000 1 0, Queue_step 2000 3 100, Set_next_step_dir 1,
       Queue_step 500 2 0, Timer_event, Timer_event, Timer_event, Timer_event, Timer_event,
       Timer_event])) = [- 1, - 1, - 1, - 1, 1, 1]"
proof -
  let ?xs = "[Queue_step 1000 1 0, Queue_step 2000 3 100, Set_next_step_dir 1,
       Queue_step 500 2 0, Timer_event, Timer_event, Timer_event, Timer_event, Timer_event,
       Timer_event]"
  let ?s = command_config_virtual_stepper
  have "\<exists>s' g'. run ?xs (?s, pool4) = Inr (s', g') \<and> s_count s' = 0"
    by (simp add: eval_defs)
  then obtain s' g' where r: "run ?xs (?s, pool4) = Inr (s', g')"
    and c: "s_count s' = 0" by blast
  have h: "s_count ?s = 0" "s_first ?s = None" "time_armed ?s = None"
    "distinct (free_list pool4)" "Stop \<notin> set ?xs"
    by (simp_all add: command_config_virtual_stepper_def pool4_def)
  have n: "(s_flags ?s AND SF_NEXT_DIR \<noteq> 0) = False"
    by (simp add: command_config_virtual_stepper_def)
  have e: "concat (map move_steps (spec_moves False ?xs)) = [- 1, - 1, - 1, - 1, 1, 1]"
    by (simp add: move_steps_def dir_delta_def) (simp add: numeral_2_eq_2 numeral_3_eq_3)
  from direction_fixed_at_enqueue [OF h r, of ?s 0 pool4] c
  have "map snd (step_trace ?xs (?s, pool4)) = concat (map move_steps (spec_moves False ?xs))"
    unfolding n by auto
  with e show ?thesis by simp
qed

section \<open>Loading a descriptor\<close>

text \<open>
  C3, as the claim states it, fails.  A descriptor with interval 2000, add 100 and count
  3 is enqueued on the idle, freshly configured stepper and so loaded at once:
  \<open>wake_time\<close> advances by 2000, \<open>add\<close> is 100 and \<open>count\<close> is 3, but the active
  \<open>interval\<close> is 2100, not 2000.
\<close>

theorem load_interval_counterexample:
  "\<exists>s g. command_virtual_queue_step command_config_virtual_stepper 2000 3 100 pool4 = Inr (s, g) \<and>
     time_waketime s = time_waketime command_config_virtual_stepper + 2000 \<and>
     s_add s = 100 \<and> s_count s = 3 \<and> s_interval s = 2100 \<and> s_interval s \<noteq> 2000"
  by (simp add: eval_defs)

text \<open>
  C3, amended.  Whenever a descriptor with fields (interval \<open>I\<close>, add \<open>A\<close>, count \<open>N\<close>,
  direction bit \<open>D\<close>) is loaded, \<open>wake_time\<close> is advanced by exactly \<open>I\<close>, the active-move
  fields become \<open>interval = I + A\<close> (\<open>A\<close> sign-extended, modulo \<open>2^32\<close>: the delay of the
  step after the first), \<open>add = A\<close> and \<open>count = N\<close>, the current-direction bit becomes
  \<open>D\<close> with the next-direction bit kept, the queue head moves to the descriptor's
  successor, and the descriptor is pushed on the pool's free list.  This holds for
  \<open>virtual_stepper_load_next\<close> itself, for the timer event that finds the remaining count
  at one (the reload, which also makes its step and re-arms the timer for the new
  \<open>wake_time\<close>), and for the enqueue on an idle stepper (where the descriptor is the one
  just built from the arguments and the next-direction flag, and the timer is armed).
\<close>

theorem load_installs_descriptor:
  "(s_first s = Some a \<longrightarrow>
      virtual_stepper_load_next s g =
        (SF_RESCHEDULE,
         s\<lparr>time_waketime := time_waketime s + m_interval (mem g a),
           s_add := m_add (mem g a),
           s_interval := m_interval (mem g a) + scast (m_add (mem g a)),
           s_count := m_count (mem g a),
           s_flags := (s_flags s AND NOT SF_CURRENT_DIR) OR m_flags (mem g a),
           s_first := m_next (mem g a)\<rparr>,
         g\<lparr>free_list := a # free_list g\<rparr>)) \<and>
   (time_armed s = Some t \<and> s_count s = 1 \<and> s_first s = Some a \<longrightarrow>
      timer_dispatch s g =
        Inr (s\<lparr>s_position := s_position s + dir_delta (s_flags s AND SF_CURRENT_DIR \<noteq> 0),
               time_waketime := time_waketime s + m_interval (mem g a),
               s_add := m_add (mem g a),
               s_interval := m_interval (mem g a) + scast (m_add (mem g a)),
               s_count := m_count (mem g a),
               s_flags := (s_flags s AND NOT SF_CURRENT_DIR) OR m_flags (mem g a),
               s_first := m_next (mem g a),
               time_armed := Some (time_waketime s + m_interval (mem g a))\<rparr>,
             g\<lparr>free_list := a # free_list g\<rparr>)) \<and>
   (s_count s = 0 \<and> free_list g = a # fl \<and> ucast arg2 \<noteq> (0::16 word) \<longrightarrow>
      command_virtual_queue_step s arg1 arg2 arg3 g =
        Inr (s\<lparr>time_waketime := time_waketime s + arg1,
               time_armed := Some (time_waketime s + arg1),
               s_add := ucast arg3,
               s_interval := arg1 + scast (ucast arg3 :: 16 word),
               s_count := ucast arg2,
               s_flags := (s_flags s AND NOT SF_CURRENT_DIR) OR
                          (if s_flags s AND SF_NEXT_DIR \<noteq> 0 then MF_DIR else 0),
               s_first := None\<rparr>,
             g\<lparr>mem := (mem g)(a := new_move arg1 arg2 arg3 (s_flags s AND SF_NEXT_DIR \<noteq> 0)),
               free_list := a # fl, irq_off := False\<rparr>)) \<and>
   ((((f AND NOT SF_CURRENT_DIR) OR (if D then MF_DIR else 0)) AND SF_CURRENT_DIR \<noteq> 0) = D \<and>
    ((f AND NOT SF_CURRENT_DIR) OR (if D then MF_DIR else 0)) AND SF_NEXT_DIR = f AND SF_NEXT_DIR)"
proof -
  have "((f AND NOT SF_CURRENT_DIR) OR (if D then MF_DIR else 0)) AND SF_NEXT_DIR = f AND SF_NEXT_DIR"
    by (rule bit_eqI) (auto simp add: bit_and_iff bit_load_flags bit_SF_NEXT_DIR bit_MF_DIR)
  moreover have "(((f AND NOT SF_CURRENT_DIR) OR (if D then MF_DIR else 0)) AND SF_CURRENT_DIR \<noteq> 0) = D"
    by (simp add: test_current_dir bit_load_flags bit_MF_DIR)
  ultimately show ?thesis
    by (simp add: load_next_Some timer_reload queue_step_idle test_current_dir)
qed

theorem load_installs_descriptor_witness:
  "virtual_stepper_load_next busy_stepper busy_pool =
     (SF_RESCHEDULE,
      \<lparr>time_waketime = 3000, time_armed = Some 1000, s_interval = 2100, s_add = 100,
       s_count = 3, s_position = 0, s_first = Some 1, s_plast = Some 1, s_flags = 3\<rparr>,
      busy_pool\<lparr>free_list := [0, 2, 3]\<rparr>) \<and>
   timer_dispatch busy_stepper busy_pool =
     Inr (\<lparr>time_waketime = 3000, time_armed = Some 3000, s_interval = 2100, s_add = 100,
           s_count = 3, s_position = - 1, s_first = Some 1, s_plast = Some 1, s_flags = 3\<rparr>,
          busy_pool\<lparr>free_list := [0, 2, 3]\<rparr>) \<and>
   s_interval (fst (projr (command_virtual_queue_step command_config_virtual_stepper 2000 3 100 pool4))) =
     2100"
proof -
  have 1: "s_first busy_stepper = Some 0" by (simp add: busy_stepper_def)
  have 2: "time_armed busy_stepper = Some 1000 \<and> s_count busy_stepper = 1 \<and>
      s_first busy_stepper = Some 0" by (simp add: busy_stepper_def)
  have 3: "s_count command_config_virtual_stepper = 0 \<and> free_list pool4 = 0 # [1, 2, 3] \<and>
      ucast (3 :: 32 word) \<noteq> (0::16 word)"
    by (simp add: command_config_virtual_stepper_def pool4_def)
  note a = load_installs_descriptor [of busy_stepper 0 busy_pool 1000 undefined undefined undefined
      undefined undefined undefined]
  note b = load_installs_descriptor [of command_config_virtual_stepper 0 pool4 undefined
      "[1, 2, 3]" 3 2000 100 undefined undefined]
  from a 1 have "virtual_stepper_load_next busy_stepper busy_pool =
     (SF_RESCHEDULE,
      \<lparr>time_waketime = 3000, time_armed = Some 1000, s_interval = 2100, s_add = 100,
       s_count = 3, s_position = 0, s_first = Some 1, s_plast = Some 1, s_flags = 3\<rparr>,
      busy_pool\<lparr>free_list := [0, 2, 3]\<rparr>)"
    by (simp add: busy_stepper_def busy_pool_def SF_CURRENT_DIR_def)
  moreover from a 2 have "timer_dispatch busy_stepper busy_pool =
     Inr (\<lparr>time_waketime = 3000, time_armed = Some 3000, s_interval = 2100, s_add = 100,
           s_count = 3, s_position = - 1, s_first = Some 1, s_plast = Some 1, s_flags = 3\<rparr>,
          busy_pool\<lparr>free_list := [0, 2, 3]\<rparr>)"
    by (simp add: busy_stepper_def busy_pool_def SF_CURRENT_DIR_def dir_delta_def)
  moreover from b 3 have "s_interval (fst (projr
      (command_virtual_queue_step command_config_virtual_stepper 2000 3 100 pool4))) = 2100"
    by (simp add: command_config_virtual_stepper_def)
  ultimately show ?thesis by simp
qed

section \<open>Scenario B\<close>

text \<open>
  C4.  Scenario B, from any idle stepper (count zero) with a free slot in the pool:
  the next direction is set to 0 and (interval 1000, count 1, add 0) is enqueued, then,
  before any timer event, the next direction is set to 1 and (interval 2000, count 3,
  add 100) is enqueued.  The four timer events that follow fire at \<open>W + 1000\<close>, then
  2000, 2100 and 2200 ticks apart (\<open>W\<close> the initial \<open>wake_time\<close>); the first decrements
  position and reloads, leaving the timer armed exactly 2000 ticks after its own fire
  time, the other three increment position; the net change is \<open>+2\<close> and the stepper
  ends idle with an empty queue and a disarmed timer.
\<close>

theorem scenario_B:
  assumes "s_count s = 0" and "free_list g = a # fl"
  shows "step_trace [Set_next_step_dir 0, Queue_step 1000 1 0, Set_next_step_dir 1,
                     Queue_step 2000 3 100, Timer_event, Timer_event, Timer_event, Timer_event]
           (s, g) =
           [(time_waketime s + 1000, - 1),
            (time_waketime s + 1000 + 2000, 1),
            (time_waketime s + 1000 + 2000 + 2100, 1),
            (time_waketime s + 1000 + 2000 + 2100 + 2200, 1)] \<and>
         (\<exists>s1 g1. run [Set_next_step_dir 0, Queue_step 1000 1 0, Set_next_step_dir 1,
                        Queue_step 2000 3 100] (s, g) = Inr (s1, g1) \<and>
            s_count s1 = 1 \<and> s_position s1 = s_position s \<and>
            time_armed s1 = Some (time_waketime s + 1000) \<and>
            s_flags s1 AND SF_CURRENT_DIR = 0 \<and>
            (\<exists>s2 g2. timer_dispatch s1 g1 = Inr (s2, g2) \<and>
               s_position s2 = s_position s - 1 \<and>
               time_armed s2 = Some (time_waketime s + 1000 + 2000) \<and>
               s_count s2 = 3 \<and> s_add s2 = 100 \<and> s_first s2 = None)) \<and>
         (\<exists>s' g'. run [Set_next_step_dir 0, Queue_step 1000 1 0, Set_next_step_dir 1,
                        Queue_step 2000 3 100, Timer_event, Timer_event, Timer_event, Timer_event]
                     (s, g) = Inr (s', g') \<and>
            s_position s' = s_position s + 2 \<and> s_count s' = 0 \<and> time_armed s' = None \<and>
            s_first s' = None)"
proof -
  have 1: "step_trace [Set_next_step_dir 0, Queue_step 1000 1 0, Set_next_step_dir 1,
                     Queue_step 2000 3 100, Timer_event, Timer_event, Timer_event, Timer_event]
           (s, g) =
           [(time_waketime s + 1000, - 1),
            (time_waketime s + 1000 + 2000, 1),
            (time_waketime s + 1000 + 2000 + 2100, 1),
            (time_waketime s + 1000 + 2000 + 2100 + 2200, 1)]"
    using assms by (simp add: symbolic_run flag_simps)
  have 2: "\<exists>s1 g1. run [Set_next_step_dir 0, Queue_step 1000 1 0, Set_next_step_dir 1,
                        Queue_step 2000 3 100] (s, g) = Inr (s1, g1) \<and>
            s_count s1 = 1 \<and> s_position s1 = s_position s \<and>
            time_armed s1 = Some (time_waketime s + 1000) \<and>
            s_flags s1 AND SF_CURRENT_DIR = 0 \<and>
            (\<exists>s2 g2. timer_dispatch s1 g1 = Inr (s2, g2) \<and>
               s_position s2 = s_position s - 1 \<and>
               time_armed s2 = Some (time_waketime s + 1000 + 2000) \<and>
               s_count s2 = 3 \<and> s_add s2 = 100 \<and> s_first s2 = None)"
    using assms by (simp add: symbolic_run flag_simps bit_eq_iff [where ?'a = "8 word"])
  have 3: "\<exists>s' g'. run [Set_next_step_dir 0, Queue_step 1000 1 0, Set_next_step_dir 1,
                        Queue_step 2000 3 100, Timer_event, Timer_event, Timer_event, Timer_event]
                     (s, g) = Inr (s', g') \<and>
            s_position s' = s_position s + 2 \<and> s_count s' = 0 \<and> time_armed s' = None \<and>
            s_first s' = None"
    using assms by (simp add: symbolic_run flag_simps)
  from 1 2 3 show ?thesis by blast
qed

theorem scenario_B_witness:
  "step_trace [Set_next_step_dir 0, Queue_step 1000 1 0, Set_next_step_dir 1,
               Queue_step 2000 3 100, Timer_event, Timer_event, Timer_event, Timer_event]
     (command_config_virtual_stepper, pool4) =
     [(1000, - 1), (3000, 1), (5100, 1), (7300, 1)]"
proof -
  have "s_count command_config_virtual_stepper = 0" "free_list pool4 = 0 # [1, 2, 3]"
    by (simp_all add: command_config_virtual_stepper_def pool4_def)
  from scenario_B [OF this] show ?thesis
    by (simp add: command_config_virtual_stepper_def)
qed

section \<open>Enqueuing a zero count\<close>

text \<open>
  C5, as the claim states it, fails.  Five enqueues on the freshly configured stepper
  leave the pool of four slots exhausted.  An enqueue with count zero then ends in the
  allocator's fault, not in the configuration error: the handler allocates before it
  looks at the count.
\<close>

theorem queue_step_zero_count_pool_counterexample:
  "\<exists>s g. run [Queue_step 1000 1 0, Queue_step 1000 1 0, Queue_step 1000 1 0,
              Queue_step 1000 1 0, Queue_step 1000 1 0]
            (command_config_virtual_stepper, pool4) = Inr (s, g) \<and>
     free_list g = [] \<and>
     command_virtual_queue_step s 500 0 0 g = Inl (Pool_exhausted, s, g) \<and>
     command_virtual_queue_step s 500 0 0 g \<noteq> Inl (Shutdown ''Invalid count parameter'', s, g) \<and>
     (\<forall>g'. command_virtual_queue_step s 500 0 0 g \<noteq>
             Inl (Shutdown ''Invalid count parameter'', s, g'))"
  by (simp add: eval_defs)

text \<open>
  C5, amended.  For every call of the enqueue handler whose count argument is zero (as
  the 16 bits the descriptor stores), whatever the state of the stepper: the call ends
  in a fault, and at the moment the fault is raised the stepper record (wake time,
  interval, add, count, position, flags, queue head and tail pointer) is exactly as
  before the call.  Whenever the pool supplies a descriptor the fault is the
  configuration error "Invalid count parameter", and the queue is as before: the same
  descriptors in the same order with the same contents, the slot just allocated not
  being one of them.  When the pool is exhausted the fault is the allocator's, raised
  before the handler looks at the count, and nothing at all has changed.
\<close>

theorem queue_step_zero_count_faults:
  assumes "ucast arg2 = (0::16 word)"
  shows "(\<exists>e g'. command_virtual_queue_step s arg1 arg2 arg3 g = Inl (e, s, g')) \<and>
         (free_list g = a # fl \<longrightarrow>
            (\<exists>g'. command_virtual_queue_step s arg1 arg2 arg3 g =
                    Inl (Shutdown ''Invalid count parameter'', s, g') \<and>
                  (queue_path (mem g) (s_first s) as \<and> a \<notin> set as \<longrightarrow>
                     queue_path (mem g') (s_first s) as \<and> map (mem g') as = map (mem g) as))) \<and>
         (free_list g = [] \<longrightarrow>
            command_virtual_queue_step s arg1 arg2 arg3 g = Inl (Pool_exhausted, s, g))"
proof -
  have 1: "\<exists>e g'. command_virtual_queue_step s arg1 arg2 arg3 g = Inl (e, s, g')"
  proof (cases "free_list g")
    case Nil
    then show ?thesis by (simp add: queue_step_pool_empty)
  next
    case (Cons b bs)
    from queue_step_zero [OF this assms] show ?thesis by simp
  qed
  have 2: "\<exists>g'. command_virtual_queue_step s arg1 arg2 arg3 g =
                    Inl (Shutdown ''Invalid count parameter'', s, g') \<and>
                  (queue_path (mem g) (s_first s) as \<and> a \<notin> set as \<longrightarrow>
                     queue_path (mem g') (s_first s) as \<and> map (mem g') as = map (mem g) as)"
    if fl: "free_list g = a # fl"
  proof -
    let ?g' = "g\<lparr>mem := (mem g)(a := (mem g a)\<lparr>m_interval := arg1, m_count := 0\<rparr>),
                 free_list := fl\<rparr>"
    have "queue_path (mem ?g') (s_first s) as = queue_path (mem g) (s_first s) as"
      by (rule queue_path_next_cong) simp
    moreover have "a \<notin> set as \<longrightarrow> map (mem ?g') as = map (mem g) as" by auto
    ultimately show ?thesis using queue_step_zero [OF fl assms] by auto
  qed
  have 3: "free_list g = [] \<longrightarrow>
      command_virtual_queue_step s arg1 arg2 arg3 g = Inl (Pool_exhausted, s, g)"
    by (simp add: queue_step_pool_empty)
  from 1 2 3 show ?thesis by blast
qed

theorem queue_step_zero_count_faults_witness:
  "command_virtual_queue_step busy_stepper 500 0 0 busy_pool =
     Inl (Shutdown ''Invalid count parameter'', busy_stepper,
          busy_pool\<lparr>mem := (mem busy_pool)(2 := blank_move\<lparr>m_interval := 500\<rparr>),
                     free_list := [3]\<rparr>) \<and>
   queue_path (mem busy_pool) (s_first busy_stepper) [0, 1] \<and>
   queue_path ((mem busy_pool)(2 := blank_move\<lparr>m_interval := 500\<rparr>)) (s_first busy_stepper) [0, 1]"
proof -
  have z: "ucast (0 :: 32 word) = (0 :: 16 word)" by simp
  have q: "queue_path (mem busy_pool) (s_first busy_stepper) [0, 1]"
    by (simp add: busy_stepper_def busy_pool_def)
  from queue_step_zero_count_faults [OF z, of busy_stepper 500 0 busy_pool 2 "[3]" "[0, 1]"]
  obtain g' where "command_virtual_queue_step busy_stepper 500 0 0 busy_pool =
      Inl (Shutdown ''Invalid count parameter'', busy_stepper, g')"
    by (auto simp add: busy_pool_def)
  moreover have "command_virtual_queue_step busy_stepper 500 0 0 busy_pool =
     Inl (Shutdown ''Invalid count parameter'', busy_stepper,
          busy_pool\<lparr>mem := (mem busy_pool)(2 := blank_move\<lparr>m_interval := 500\<rparr>),
                     free_list := [3]\<rparr>)"
    by (simp add: eval_defs busy_pool_def busy_stepper_def)
  moreover have "queue_path ((mem busy_pool)(2 := blank_move\<lparr>m_interval := 500\<rparr>))
      (s_first busy_stepper) [0, 1]"
    by (simp add: busy_stepper_def busy_pool_def)
  ultimately show ?thesis using q by simp
qed

section \<open>Resetting the step clock\<close>

text \<open>
  C6.  For every call of the reset-clock handler with clock \<open>t\<close>: on an idle stepper
  (\<open>count = 0\<close>) it returns, the stepper is as before except that \<open>wake_time\<close> is exactly
  \<open>t\<close>, and pool memory and free list are untouched (the interrupt mask is left
  enabled, as the handler found it in task context); on an active stepper (\<open>count > 0\<close>)
  it raises the fault "Can't reset time when stepper active" with every stepper field,
  \<open>wake_time\<close> included, as before the call.
\<close>

theorem reset_step_clock_idle_or_fault:
  "(s_count s = 0 \<longrightarrow>
      command_virtual_reset_step_clock s t g = Inr (s\<lparr>time_waketime := t\<rparr>, g\<lparr>irq_off := False\<rparr>)) \<and>
   (s_count s \<noteq> 0 \<longrightarrow>
      command_virtual_reset_step_clock s t g =
        Inl (Shutdown ''Can't reset time when stepper active'', s, g\<lparr>irq_off := True\<rparr>))"
  by (simp add: command_virtual_reset_step_clock_def irq_disable_def irq_enable_def)

theorem reset_step_clock_idle_or_fault_witness:
  "command_virtual_reset_step_clock command_config_virtual_stepper 5000 pool4 =
     Inr (command_config_virtual_stepper\<lparr>time_waketime := 5000\<rparr>, pool4) \<and>
   command_virtual_reset_step_clock (command_config_virtual_stepper\<lparr>s_count := 3\<rparr>) 5000 pool4 =
     Inl (Shutdown ''Can't reset time when stepper active'',
          command_config_virtual_stepper\<lparr>s_count := 3\<rparr>, pool4\<lparr>irq_off := True\<rparr>)"
  using reset_step_clock_idle_or_fault [of command_config_virtual_stepper 5000 pool4]
    reset_step_clock_idle_or_fault [of "command_config_virtual_stepper\<lparr>s_count := 3\<rparr>" 5000 pool4]
  by (simp add: command_config_virtual_stepper_def pool4_def)

section \<open>Stop\<close>

text \<open>
  C7.  Stop, called in any state whose queue is a chain of descriptors \<open>as\<close> that ends
  in \<open>NULL\<close>, returns: the timer is disarmed, \<open>count\<close>, \<open>wake_time\<close> and \<open>flags\<close> are zero,
  the queue is empty, every descriptor of \<open>as\<close> is on the pool's free list, and nothing
  else has changed.  A second stop right after it returns the very same state, and so
  does a stop of a stepper that is already idle with an empty queue (the case
  \<open>as = []\<close>, where the pool is untouched).  Every state that the operations reach from
  the freshly configured stepper has such a queue.
\<close>

theorem stop_flushes_and_is_idempotent:
  "(queue_path (mem g) (s_first s) as \<longrightarrow>
      (\<exists>s' g'. virtual_stepper_stop s g = Some (s', g') \<and>
         s' = s\<lparr>time_armed := None, time_waketime := 0, s_count := 0, s_flags := 0,
                s_first := None\<rparr> \<and>
         g' = g\<lparr>free_list := rev as @ free_list g\<rparr> \<and>
         time_armed s' = None \<and> s_count s' = 0 \<and> time_waketime s' = 0 \<and> s_flags s' = 0 \<and>
         s_first s' = None \<and> set as \<subseteq> set (free_list g') \<and>
         virtual_stepper_stop s' g' = Some (s', g'))) \<and>
   (distinct (free_list g0) \<and> run xs (command_config_virtual_stepper, g0) = Inr (s, g) \<longrightarrow>
      (\<exists>bs. queue_path (mem g) (s_first s) bs))"
proof -
  have "\<exists>bs. queue_path (mem g) (s_first s) bs"
    if d: "distinct (free_list g0)"
      and r: "run xs (command_config_virtual_stepper, g0) = Inr (s, g)"
  proof -
    have "stepper_inv [] (command_config_virtual_stepper, g0)"
      using d by (simp add: stepper_inv_def command_config_virtual_stepper_def)
    from inv_run_any [OF this disjI1, OF r] obtain bs where "stepper_inv bs (s, g)" ..
    then show ?thesis by (auto simp add: stepper_inv_def)
  qed
  moreover have "\<exists>s' g'. virtual_stepper_stop s g = Some (s', g') \<and>
         s' = s\<lparr>time_armed := None, time_waketime := 0, s_count := 0, s_flags := 0,
                s_first := None\<rparr> \<and>
         g' = g\<lparr>free_list := rev as @ free_list g\<rparr> \<and>
         time_armed s' = None \<and> s_count s' = 0 \<and> time_waketime s' = 0 \<and> s_flags s' = 0 \<and>
         s_first s' = None \<and> set as \<subseteq> set (free_list g') \<and>
         virtual_stepper_stop s' g' = Some (s', g')"
    if "queue_path (mem g) (s_first s) as"
    using stop_result [OF that] by auto
  ultimately show ?thesis by blast
qed

theorem stop_flushes_and_is_idempotent_witness:
  "virtual_stepper_stop busy_stepper busy_pool =
     Some (busy_stepper\<lparr>time_armed := None, time_waketime := 0, s_count := 0, s_flags := 0,
                        s_first := None\<rparr>,
           busy_pool\<lparr>free_list := [1, 0, 2, 3]\<rparr>) \<and>
   virtual_stepper_stop
     (busy_stepper\<lparr>time_armed := None, time_waketime := 0, s_count := 0, s_flags := 0,
                   s_first := None\<rparr>)
     (busy_pool\<lparr>free_list := [1, 0, 2, 3]\<rparr>) =
     Some (busy_stepper\<lparr>time_armed := None, time_waketime := 0, s_count := 0, s_flags := 0,
                        s_first := None\<rparr>,
           busy_pool\<lparr>free_list := [1, 0, 2, 3]\<rparr>) \<and>
   distinct (free_list pool4) \<and>
   run [Queue_step 1000 1 0, Set_next_step_dir 1, Queue_step 2000 3 100, Queue_step 500 2 0]
     (command_config_virtual_stepper, pool4) = Inr (busy_stepper, busy_pool) \<and>
   (\<exists>bs. queue_path (mem busy_pool) (s_first busy_stepper) bs)"
proof -
  let ?xs = "[Queue_step 1000 1 0, Set_next_step_dir 1, Queue_step 2000 3 100, Queue_step 500 2 0]"
  have q: "queue_path (mem busy_pool) (s_first busy_stepper) [0, 1]"
    by (simp add: busy_stepper_def busy_pool_def)
  have f: "rev [0, 1] @ free_list busy_pool = [1, 0, 2, 3]" by (simp add: busy_pool_def)
  have d: "distinct (free_list pool4)" by (simp add: pool4_def)
  note t = stop_flushes_and_is_idempotent [of busy_pool busy_stepper "[0, 1]" pool4 ?xs]
  from t q have "virtual_stepper_stop busy_stepper busy_pool =
     Some (busy_stepper\<lparr>time_armed := None, time_waketime := 0, s_count := 0, s_flags := 0,
                        s_first := None\<rparr>,
           busy_pool\<lparr>free_list := [1, 0, 2, 3]\<rparr>)"
    and "virtual_stepper_stop
     (busy_stepper\<lparr>time_armed := None, time_waketime := 0, s_count := 0, s_flags := 0,
                   s_first := None\<rparr>)
     (busy_pool\<lparr>free_list := [1, 0, 2, 3]\<rparr>) =
     Some (busy_stepper\<lparr>time_armed := None, time_waketime := 0, s_count := 0, s_flags := 0,
                        s_first := None\<rparr>,
           busy_pool\<lparr>free_list := [1, 0, 2, 3]\<rparr>)"
    unfolding f by auto
  moreover from t d busy_reached have "\<exists>bs. queue_path (mem busy_pool) (s_first busy_stepper) bs"
    by blast
  ultimately show ?thesis using d busy_reached by simp
qed

section \<open>Shutdown\<close>

text \<open>
  C8, as the claim states it, fails.  A stepper has one active move and two queued
  descriptors, in slots 0 and 1.  After the shutdown handler its queue is empty, but
  the free list is what it was: neither slot 0 nor slot 1 has been released.
\<close>

theorem shutdown_release_counterexample:
  "run [Queue_step 1000 1 0, Set_next_step_dir 1, Queue_step 2000 3 100, Queue_step 500 2 0]
     (command_config_virtual_stepper, pool4) = Inr (busy_stepper, busy_pool) \<and>
   queue_path (mem busy_pool) (s_first busy_stepper) [0, 1] \<and>
   (\<exists>ss' g'. virtual_stepper_shutdown [busy_stepper] busy_pool = Some (ss', g') \<and>
      free_list g' = [2, 3] \<and> 0 \<notin> set (free_list g') \<and> 1 \<notin> set (free_list g'))"
  using busy_reached by (simp add: shutdown_all) (simp add: busy_stepper_def busy_pool_def)

text \<open>
  C8, amended.  On global system shutdown every configured stepper, whatever its state,
  is force-stopped: its timer is disarmed, its \<open>count\<close>, \<open>wake_time\<close> and \<open>flags\<close> are
  zeroed and its queue is left empty.  The handler clears the queue head before it
  stops the stepper, so the descriptors still queued are dropped, not released: pool
  memory and free list are unchanged by the handler.
\<close>

theorem shutdown_stops_every_stepper:
  "virtual_stepper_shutdown ss g =
     Some (map (\<lambda>s. s\<lparr>time_armed := None, time_waketime := 0, s_count := 0, s_flags := 0,
                       s_first := None\<rparr>) ss, g)"
  by (rule shutdown_all)

theorem shutdown_stops_every_stepper_witness:
  "virtual_stepper_shutdown [busy_stepper, command_config_virtual_stepper] busy_pool =
     Some ([busy_stepper\<lparr>time_armed := None, time_waketime := 0, s_count := 0, s_flags := 0,
                         s_first := None\<rparr>,
            command_config_virtual_stepper], busy_pool)"
  using shutdown_stops_every_stepper [of "[busy_stepper, command_config_virtual_stepper]" busy_pool]
  by (simp add: command_config_virtual_stepper_def)

section \<open>Count and timer\<close>

text \<open>
  C9.  In every state that a sequence of enqueue, set-next-direction, reset-clock,
  timer-event and stop operations reaches from the freshly configured stepper (with a
  pool whose free list names no slot twice), whether the sequence ran to its end or
  was ended by a fault: \<open>count = 0\<close> exactly when the timer is disarmed, and
  \<open>count > 0\<close> exactly when the timer is armed for \<open>wake_time\<close>.
\<close>

theorem count_zero_iff_timer_disarmed:
  assumes "distinct (free_list g0)"
    and "run xs (command_config_virtual_stepper, g0) = Inr (s, g) \<or>
         run xs (command_config_virtual_stepper, g0) = Inl (e, s, g)"
  shows "(s_count s = 0 \<longleftrightarrow> time_armed s = None) \<and>
         (s_count s \<noteq> 0 \<longleftrightarrow> time_armed s = Some (time_waketime s))"
proof -
  have "stepper_inv [] (command_config_virtual_stepper, g0)"
    using assms(1) by (simp add: stepper_inv_def command_config_virtual_stepper_def)
  from inv_run_any [OF this assms(2)] obtain as where "stepper_inv as (s, g)" ..
  then show ?thesis by (auto simp add: stepper_inv_def)
qed

theorem count_zero_iff_timer_disarmed_witness:
  "\<exists>s g. run [Queue_step 1000 1 0, Queue_step 2000 3 100, Timer_event, Timer_event]
            (command_config_virtual_stepper, pool4) = Inr (s, g) \<and>
     s_count s = 2 \<and> time_waketime s = 5100 \<and> time_armed s = Some (time_waketime s)"
proof -
  let ?xs = "[Queue_step 1000 1 0, Queue_step 2000 3 100, Timer_event, Timer_event]"
  have "\<exists>s g. run ?xs (command_config_virtual_stepper, pool4) = Inr (s, g) \<and>
      s_count s = 2 \<and> time_waketime s = 5100"
    by (simp add: eval_defs)
  then obtain s g where r: "run ?xs (command_config_virtual_stepper, pool4) = Inr (s, g)"
    and c: "s_count s = 2" and w: "time_waketime s = 5100" by blast
  have d: "distinct (free_list pool4)" by (simp add: pool4_def)
  from count_zero_iff_timer_disarmed [OF d disjI1, OF r] c
  have "time_armed s = Some (time_waketime s)" by simp
  with r c w show ?thesis by blast
qed

section \<open>The descriptor of a rejected enqueue\<close>

text \<open>
  C10.  When the enqueue handler is called with a zero count and the pool has supplied
  descriptor \<open>a\<close> (the head of a free list that names no slot twice), the fault
  "Invalid count parameter" is raised with \<open>a\<close> still held: it is off the free list and
  has not been put back, and no \<open>next\<close> pointer in pool memory has changed, so every
  chain of descriptors, from any stepper's queue head, is what it was and \<open>a\<close> has been
  linked into none.  The interrupt mask is as before the call (the critical section
  has not been entered), and the state at the fault is the same whatever the stepper:
  no stepper field has been read or written.
\<close>

theorem queue_step_zero_count_leaks_descriptor:
  assumes "ucast arg2 = (0::16 word)" and "free_list g = a # fl" and "distinct (free_list g)"
  shows "\<exists>g'. (\<forall>s. command_virtual_queue_step s arg1 arg2 arg3 g =
                     Inl (Shutdown ''Invalid count parameter'', s, g')) \<and>
           free_list g' = fl \<and> a \<notin> set (free_list g') \<and>
           irq_off g' = irq_off g \<and>
           (\<forall>b. m_next (mem g' b) = m_next (mem g b)) \<and>
           (\<forall>p as. queue_path (mem g') p as = queue_path (mem g) p as)"
proof -
  let ?g' = "g\<lparr>mem := (mem g)(a := (mem g a)\<lparr>m_interval := arg1, m_count := 0\<rparr>),
               free_list := fl\<rparr>"
  have n: "\<forall>b. m_next (mem ?g' b) = m_next (mem g b)" by simp
  have "queue_path (mem ?g') p as = queue_path (mem g) p as" for p as
    by (rule queue_path_next_cong) simp
  then have "\<forall>p as. queue_path (mem ?g') p as = queue_path (mem g) p as" by blast
  moreover have "\<forall>s. command_virtual_queue_step s arg1 arg2 arg3 g =
                     Inl (Shutdown ''Invalid count parameter'', s, ?g')"
    using queue_step_zero [OF assms(2) assms(1)] by blast
  moreover have "a \<notin> set (free_list ?g')" using assms(2,3) by simp
  ultimately show ?thesis using n by (intro exI [of _ ?g']) simp
qed

theorem queue_step_zero_count_leaks_descriptor_witness:
  "\<exists>g'. command_virtual_queue_step busy_stepper 500 65536 7 busy_pool =
           Inl (Shutdown ''Invalid count parameter'', busy_stepper, g') \<and>
     free_list g' = [3] \<and> irq_off g' = False \<and> queue_path (mem g') (s_first busy_stepper) [0, 1]"
proof -
  have z: "ucast (65536 :: 32 word) = (0 :: 16 word)" by simp
  have f: "free_list busy_pool = 2 # [3]" "distinct (free_list busy_pool)"
    by (simp_all add: busy_pool_def)
  have q: "queue_path (mem busy_pool) (s_first busy_stepper) [0, 1]"
    by (simp add: busy_stepper_def busy_pool_def)
  from queue_step_zero_count_leaks_descriptor [OF z f, of 500 7] q show ?thesis
    by (auto simp add: busy_pool_def)
qed

end
